theory Spec2Isabelle
  imports Main
begin

section \<open>Strings\<close>

text \<open>
  A JavaScript string is modelled as a \<open>string\<close>; one \<open>char\<close> stands for one code unit
  below 256. The file is read and written as text, so its content is a \<open>string\<close> too.
\<close>

definition comma :: char where
  "comma = CHR '',''"

definition newline :: char where
  "newline = CHR 0x0A"

definition space :: char where
  "space = CHR '' ''"

text \<open>The white space and line terminators that \<open>String.prototype.trim\<close> strips.\<close>

definition is_ws :: "char \<Rightarrow> bool" where
  "is_ws c \<longleftrightarrow>
     c \<in> set [CHR 0x09, CHR 0x0A, CHR 0x0B, CHR 0x0C, CHR 0x0D, CHR 0x20, CHR 0xA0]"

definition trim :: "string \<Rightarrow> string" where
  "trim s = rev (dropWhile is_ws (rev (dropWhile is_ws s)))"

text \<open>\<open>s.replace(/,/g, ' ')\<close>\<close>

definition replace_commas :: "string \<Rightarrow> string" where
  "replace_commas s = map (\<lambda>c. if c = comma then space else c) s"

text \<open>\<open>s.split(d)\<close> for a separator of one character: never the empty array.\<close>

fun split :: "char \<Rightarrow> string \<Rightarrow> string list" where
  "split d [] = [[]]"
| "split d (c # cs) =
     (if c = d then [] # split d cs
      else (let r = split d cs in (c # hd r) # tl r))"

text \<open>\<open>xs.join(d)\<close> for an array of strings.\<close>

fun join :: "char \<Rightarrow> string list \<Rightarrow> string" where
  "join d [] = []"
| "join d [x] = x"
| "join d (x # y # ys) = x @ d # join d (y # ys)"

section \<open>Numbers\<close>

text \<open>
  A number is not-a-number, an infinity, or a finite decimal \<open>Fin m e\<close> of value
  \<open>m * 10 ^ e\<close>. Decimals are exact: the rounding of a literal to the nearest binary64
  value is outside the model, with it the overflow of a large literal to an infinity and
  the underflow of a small one to zero, and so is the sign of zero (\<open>-0\<close> and \<open>0\<close> print
  alike, are both falsy and are equal under \<open>===\<close>). Two representations of one value
  are identified by \<open>num_eq\<close>, which is \<open>===\<close> on numbers. Which texts are numbers and
  which are not-a-number does not depend on the rounding.
\<close>

datatype jsnum = NaN | PosInf | NegInf | Fin int int

definition is_nan :: "jsnum \<Rightarrow> bool" where
  "is_nan x \<longleftrightarrow> x = NaN"

fun num_eq :: "jsnum \<Rightarrow> jsnum \<Rightarrow> bool" where
  "num_eq (Fin m1 e1) (Fin m2 e2) =
     (m1 * 10 ^ nat (e1 - min e1 e2) = m2 * 10 ^ nat (e2 - min e1 e2))"
| "num_eq PosInf PosInf = True"
| "num_eq NegInf NegInf = True"
| "num_eq _ _ = False"

fun neg :: "jsnum \<Rightarrow> jsnum" where
  "neg NaN = NaN"
| "neg PosInf = NegInf"
| "neg NegInf = PosInf"
| "neg (Fin m e) = Fin (- m) e"

subsection \<open>Digits\<close>

definition is_digit :: "char \<Rightarrow> bool" where
  "is_digit c \<longleftrightarrow> c \<in> set ''0123456789''"

text \<open>The value of a digit is its position in \<open>0123456789\<close>.\<close>

definition digit_val :: "char \<Rightarrow> nat" where
  "digit_val c = length (takeWhile (\<lambda>x. x \<noteq> c) ''0123456789'')"

definition digit_char :: "nat \<Rightarrow> char" where
  "digit_char d = ''0123456789'' ! (d mod 10)"

fun digits_of :: "nat \<Rightarrow> string" where
  "digits_of n =
     (if n < 10 then [digit_char n] else digits_of (n div 10) @ [digit_char (n mod 10)])"

definition nat_of_digits :: "string \<Rightarrow> nat" where
  "nat_of_digits ds = foldl (\<lambda>a c. 10 * a + digit_val c) 0 ds"

text \<open>Hexadecimal, octal and binary integer literals (\<open>0x1F\<close>, \<open>0o17\<close>, \<open>0b101\<close>).\<close>

definition hex_val :: "char \<Rightarrow> nat option" where
  "hex_val c =
     (if is_digit c then Some (digit_val c)
      else if c = CHR ''a'' \<or> c = CHR ''A'' then Some 10
      else if c = CHR ''b'' \<or> c = CHR ''B'' then Some 11
      else if c = CHR ''c'' \<or> c = CHR ''C'' then Some 12
      else if c = CHR ''d'' \<or> c = CHR ''D'' then Some 13
      else if c = CHR ''e'' \<or> c = CHR ''E'' then Some 14
      else if c = CHR ''f'' \<or> c = CHR ''F'' then Some 15
      else None)"

definition radix_digits :: "nat \<Rightarrow> string \<Rightarrow> nat option" where
  "radix_digits b ds =
     (if ds \<noteq> [] \<and> list_all (\<lambda>c. case hex_val c of None \<Rightarrow> False | Some v \<Rightarrow> v < b) ds
      then Some (foldl (\<lambda>a c. b * a + the (hex_val c)) 0 ds)
      else None)"

definition parse_nondecimal :: "string \<Rightarrow> nat option" where
  "parse_nondecimal s =
     (case s of
        z # x # ds \<Rightarrow>
          (if z \<noteq> CHR ''0'' then None
           else if x = CHR ''x'' \<or> x = CHR ''X'' then radix_digits 16 ds
           else if x = CHR ''o'' \<or> x = CHR ''O'' then radix_digits 8 ds
           else if x = CHR ''b'' \<or> x = CHR ''B'' then radix_digits 2 ds
           else None)
      | _ \<Rightarrow> None)"

subsection \<open>String to number\<close>

text \<open>The exponent part of a decimal literal: \<open>e\<close> or \<open>E\<close>, an optional sign, digits.\<close>

definition parse_exponent :: "string \<Rightarrow> int option" where
  "parse_exponent s =
     (case s of
        [] \<Rightarrow> Some 0
      | c # r \<Rightarrow>
          (if c = CHR ''e'' \<or> c = CHR ''E'' then
             (let neg_e = (case r of [] \<Rightarrow> False | x # _ \<Rightarrow> x = CHR ''-'');
                  ds = (case r of [] \<Rightarrow> []
                        | x # r' \<Rightarrow> if x = CHR ''+'' \<or> x = CHR ''-'' then r' else r)
              in if ds \<noteq> [] \<and> list_all is_digit ds
                 then Some (if neg_e then - int (nat_of_digits ds) else int (nat_of_digits ds))
                 else None)
           else None))"

text \<open>
  An unsigned decimal literal: digits, an optional point and fraction digits (one of the
  two digit groups may be empty, not both), an optional exponent, and nothing after it.
\<close>

definition parse_decimal :: "string \<Rightarrow> jsnum" where
  "parse_decimal s =
     (let ip = takeWhile is_digit s;
          r1 = dropWhile is_digit s;
          fp = (case r1 of [] \<Rightarrow> []
                | c # r \<Rightarrow> if c = CHR ''.'' then takeWhile is_digit r else []);
          r2 = (case r1 of [] \<Rightarrow> []
                | c # r \<Rightarrow> if c = CHR ''.'' then dropWhile is_digit r else r1)
      in if ip = [] \<and> fp = [] then NaN
         else (case parse_exponent r2 of
                 None \<Rightarrow> NaN
               | Some x \<Rightarrow> Fin (int (nat_of_digits (ip @ fp))) (x - int (length fp))))"

definition parse_unsigned :: "string \<Rightarrow> jsnum" where
  "parse_unsigned s = (if s = ''Infinity'' then PosInf else parse_decimal s)"

text \<open>\<open>Number(s)\<close> for a string \<open>s\<close>.\<close>

definition string_to_number :: "string \<Rightarrow> jsnum" where
  "string_to_number s =
     (let t = trim s in
      if t = [] then Fin 0 0
      else (case parse_nondecimal t of
              Some n \<Rightarrow> Fin (int n) 0
            | None \<Rightarrow>
                (if hd t = CHR ''+'' then parse_unsigned (tl t)
                 else if hd t = CHR ''-'' then neg (parse_unsigned (tl t))
                 else parse_unsigned t)))"

subsection \<open>Number to string\<close>

text \<open>
  \<open>String(x)\<close> for a positive finite number. Its digits without trailing zeros are
  \<open>sig\<close>, there are \<open>k\<close> of them, and the decimal point stands after the first \<open>n\<close> of
  them: the number is written out in full when \<open>n\<close> lies between \<open>-5\<close> and \<open>21\<close>, and with
  an exponent otherwise.
\<close>

definition layout :: "string \<Rightarrow> int \<Rightarrow> string" where
  "layout sig n =
     (let k = int (length sig)
      in if k \<le> n \<and> n \<le> 21 then sig @ replicate (nat (n - k)) (CHR ''0'')
         else if 0 < n \<and> n \<le> 21 then take (nat n) sig @ CHR ''.'' # drop (nat n) sig
         else if - 6 < n \<and> n \<le> 0 then ''0.'' @ replicate (nat (- n)) (CHR ''0'') @ sig
         else (if k = 1 then sig else hd sig # CHR ''.'' # tl sig)
              @ CHR ''e'' # (if n - 1 < 0 then CHR ''-'' else CHR ''+'')
              # digits_of (nat \<bar>n - 1\<bar>))"

text \<open>The digits \<open>ds\<close> of a mantissa and its exponent \<open>e\<close>.\<close>

definition render_pos :: "string \<Rightarrow> int \<Rightarrow> string" where
  "render_pos ds e =
     (let z = length (takeWhile (\<lambda>c. c = CHR ''0'') (rev ds));
          sig = take (length ds - z) ds
      in layout sig (int (length sig) + e + int z))"

fun num_to_string :: "jsnum \<Rightarrow> string" where
  "num_to_string NaN = ''NaN''"
| "num_to_string PosInf = ''Infinity''"
| "num_to_string NegInf = ''-Infinity''"
| "num_to_string (Fin m e) =
     (if m = 0 then ''0''
      else (if m < 0 then ''-'' else []) @ render_pos (digits_of (nat \<bar>m\<bar>)) e)"

section \<open>Values\<close>

text \<open>
  The values a request body and a record field can hold: \<open>undefined\<close> (an absent
  property) and the values of JSON. An object is the list of its own properties.
\<close>

datatype jsval =
    Undefined
  | Null
  | Bool bool
  | Num jsnum
  | Str string
  | Arr "jsval list"
  | Obj "(string \<times> jsval) list"

datatype error = TypeError | ENOENT

definition bind :: "error + 'a \<Rightarrow> ('a \<Rightarrow> error + 'b) \<Rightarrow> error + 'b" where
  "bind r f = (case r of Inl e \<Rightarrow> Inl e | Inr x \<Rightarrow> f x)"

text \<open>Truthiness: what \<open>!v\<close> and \<open>v || d\<close> test.\<close>

fun falsy_num :: "jsnum \<Rightarrow> bool" where
  "falsy_num NaN = True"
| "falsy_num (Fin m e) = (m = 0)"
| "falsy_num _ = False"

fun truthy :: "jsval \<Rightarrow> bool" where
  "truthy Undefined = False"
| "truthy Null = False"
| "truthy (Bool b) = b"
| "truthy (Num x) = (\<not> falsy_num x)"
| "truthy (Str s) = (s \<noteq> [])"
| "truthy (Arr vs) = True"
| "truthy (Obj kvs) = True"

text \<open>\<open>a || b\<close> and \<open>a ?? b\<close>\<close>

definition or_else :: "jsval \<Rightarrow> jsval \<Rightarrow> jsval" where
  "or_else a b = (if truthy a then a else b)"

definition nullish_or :: "jsval \<Rightarrow> jsval \<Rightarrow> jsval" where
  "nullish_or a b = (if a = Undefined \<or> a = Null then b else a)"

text \<open>The first error of a list of results, or all the values.\<close>

fun collect :: "(error + 'a) list \<Rightarrow> error + 'a list" where
  "collect [] = Inr []"
| "collect (r # rs) = bind r (\<lambda>x. bind (collect rs) (\<lambda>xs. Inr (x # xs)))"

text \<open>
  \<open>Array.prototype.join\<close> writes \<open>undefined\<close> and \<open>null\<close> elements as the empty string
  and every other element as its string.
\<close>

definition join_elems :: "jsval list \<Rightarrow> (error + string) list \<Rightarrow> error + string" where
  "join_elems vs rs =
     bind (collect (map2 (\<lambda>v r. if v = Undefined \<or> v = Null then Inr [] else r) vs rs))
       (\<lambda>ss. Inr (join comma ss))"

text \<open>
  \<open>String(v)\<close>. An object that came from JSON has no callable property of its own: with
  an own property \<open>toString\<close> the conversion finds no method that returns a primitive and
  throws a \<open>TypeError\<close>; without one it inherits \<open>Object.prototype.toString\<close>.
\<close>

primrec to_string :: "jsval \<Rightarrow> error + string" where
  "to_string Undefined = Inr ''undefined''"
| "to_string Null = Inr ''null''"
| "to_string (Bool b) = Inr (if b then ''true'' else ''false'')"
| "to_string (Num x) = Inr (num_to_string x)"
| "to_string (Str s) = Inr s"
| "to_string (Arr vs) = join_elems vs (map to_string vs)"
| "to_string (Obj kvs) =
     (if ''toString'' \<in> set (map fst kvs) then Inl TypeError else Inr ''[object Object]'')"

text \<open>\<open>Number(v)\<close>: an array or object is converted through its string.\<close>

fun to_number :: "jsval \<Rightarrow> error + jsnum" where
  "to_number Undefined = Inr NaN"
| "to_number Null = Inr (Fin 0 0)"
| "to_number (Bool b) = Inr (Fin (if b then 1 else 0) 0)"
| "to_number (Num x) = Inr x"
| "to_number (Str s) = Inr (string_to_number s)"
| "to_number (Arr vs) = bind (to_string (Arr vs)) (\<lambda>s. Inr (string_to_number s))"
| "to_number (Obj kvs) = bind (to_string (Obj kvs)) (\<lambda>s. Inr (string_to_number s))"

text \<open>Reading a property of a value: only an object from JSON has the ones read here.\<close>

definition get_prop :: "jsval \<Rightarrow> string \<Rightarrow> jsval" where
  "get_prop v k =
     (case v of
        Obj kvs \<Rightarrow> (case map_of kvs k of None \<Rightarrow> Undefined | Some x \<Rightarrow> x)
      | _ \<Rightarrow> Undefined)"

section \<open>Record codec\<close>

record transaction =
  rec_id :: jsval
  date :: jsval
  category :: jsval
  payee :: jsval
  amount :: jsval
  rec_notes :: jsval

text \<open>
  \<open>parseCsvLine\<close>: the destructuring takes the first six elements of the split line, a
  missing one is \<open>undefined\<close>, and \<open>Number(undefined)\<close> is not-a-number.
\<close>

definition field :: "string list \<Rightarrow> nat \<Rightarrow> jsval" where
  "field fs i = (if i < length fs then Str (fs ! i) else Undefined)"

definition parseCsvLine :: "string \<Rightarrow> transaction" where
  "parseCsvLine line =
     (let fs = split comma line in
      \<lparr> rec_id = field fs 0,
        date = field fs 1,
        category = field fs 2,
        payee = field fs 3,
        amount = Num (if 4 < length fs then string_to_number (fs ! 4) else NaN),
        rec_notes = nullish_or (field fs 5) (Str []) \<rparr>)"

text \<open>\<open>safe = s => String(s ?? '').replace(/,/g, ' ').trim()\<close>\<close>

definition safe :: "jsval \<Rightarrow> error + string" where
  "safe v = bind (to_string (nullish_or v (Str []))) (\<lambda>s. Inr (trim (replace_commas s)))"

text \<open>\<open>String(Number(v) || 0)\<close>\<close>

definition amount_text :: "jsval \<Rightarrow> error + string" where
  "amount_text v =
     bind (to_number v) (\<lambda>x. Inr (num_to_string (if falsy_num x then Fin 0 0 else x)))"

definition toCsvLine :: "transaction \<Rightarrow> error + string" where
  "toCsvLine r =
     bind (safe (rec_id r)) (\<lambda>f0.
     bind (safe (date r)) (\<lambda>f1.
     bind (safe (category r)) (\<lambda>f2.
     bind (safe (payee r)) (\<lambda>f3.
     bind (amount_text (amount r)) (\<lambda>f4.
     bind (safe (rec_notes r)) (\<lambda>f5.
       Inr (join comma [f0, f1, f2, f3, f4, f5] @ [newline])))))))"

section \<open>Store\<close>

text \<open>
  The part of the file system the server touches: the data directory is missing, or it
  exists without the data file, or the data file exists with some text.
\<close>

datatype fs = NoDir | DirOnly | File string

definition header :: string where
  "header = ''id,date,category,payee,amount,notes'' @ [newline]"

text \<open>\<open>fs.existsSync\<close> of the directory and of the file.\<close>

fun dir_exists :: "fs \<Rightarrow> bool" where
  "dir_exists NoDir = False"
| "dir_exists _ = True"

fun file_exists :: "fs \<Rightarrow> bool" where
  "file_exists (File c) = True"
| "file_exists _ = False"

text \<open>\<open>fs.mkdirSync(dir, { recursive: true })\<close>\<close>

fun mkdirSync :: "fs \<Rightarrow> fs" where
  "mkdirSync NoDir = DirOnly"
| "mkdirSync d = d"

fun writeFileSync :: "string \<Rightarrow> fs \<Rightarrow> error + fs" where
  "writeFileSync c NoDir = Inl ENOENT"
| "writeFileSync c _ = Inr (File c)"

fun readFileSync :: "fs \<Rightarrow> error + string" where
  "readFileSync (File c) = Inr c"
| "readFileSync _ = Inl ENOENT"

fun appendFileSync :: "string \<Rightarrow> fs \<Rightarrow> error + fs" where
  "appendFileSync l NoDir = Inl ENOENT"
| "appendFileSync l DirOnly = Inr (File l)"
| "appendFileSync l (File c) = Inr (File (c @ l))"

text \<open>
  \<open>ensureCsv\<close>: a missing directory is created, then a missing file is written with the
  header row.
\<close>

definition ensureCsv :: "fs \<Rightarrow> error + fs" where
  "ensureCsv d =
     (let d1 = (if \<not> dir_exists d then mkdirSync d else d)
      in if \<not> file_exists d1 then writeFileSync header d1 else Inr d1)"

definition loadAll :: "fs \<Rightarrow> error + transaction list \<times> fs" where
  "loadAll d =
     bind (ensureCsv d) (\<lambda>d'.
     bind (readFileSync d') (\<lambda>text.
       let raw = trim text;
           lines = split newline raw;
           rows = filter (\<lambda>l. l \<noteq> []) (tl lines)
       in Inr (map parseCsvLine rows, d')))"

definition appendOne :: "transaction \<Rightarrow> fs \<Rightarrow> error + fs" where
  "appendOne r d = bind (toCsvLine r) (\<lambda>l. appendFileSync l d)"

section \<open>API layer\<close>

text \<open>The process state: the array \<open>transactions\<close> and the disk.\<close>

record server =
  transactions :: "transaction list"
  disk :: fs

text \<open>
  Start of the process: \<open>let transactions = loadAll()\<close>, and \<open>ensureCsv()\<close> once more when
  the server listens.
\<close>

definition startup :: "fs \<Rightarrow> error + server" where
  "startup d =
     bind (loadAll d) (\<lambda>(txs, d').
     bind (ensureCsv d') (\<lambda>d''. Inr \<lparr> transactions = txs, disk = d'' \<rparr>))"

text \<open>
  What a request reads from its surroundings: the result of \<open>crypto.randomUUID()\<close> when
  the runtime has it, and the clock \<open>Date.now()\<close>.
\<close>

record env =
  uuid :: "string option"
  now :: int

text \<open>\<open>global.crypto?.randomUUID?.() || Date.now().toString()\<close>\<close>

definition gen_id :: "env \<Rightarrow> string" where
  "gen_id ev =
     (case uuid ev of
        Some u \<Rightarrow> if u \<noteq> [] then u else num_to_string (Fin (now ev) 0)
      | None \<Rightarrow> num_to_string (Fin (now ev) 0))"

datatype reply =
    Listing "transaction list"
  | Created transaction
  | Rejected string
  | Fault error

text \<open>\<open>GET /api/transactions\<close>\<close>

definition list_transactions :: "server \<Rightarrow> reply \<times> server" where
  "list_transactions s = (Listing (transactions s), s)"

text \<open>The destructuring \<open>const { k } = req.body || {}\<close>, for one property \<open>k\<close>.\<close>

definition body_prop :: "jsval \<Rightarrow> string \<Rightarrow> jsval" where
  "body_prop body k = get_prop (or_else body (Obj [])) k"

text \<open>
  \<open>POST /api/transactions\<close>. \<open>Rejected\<close> is the answer with status 400, \<open>Created\<close> the
  answer with status 200, and \<open>Fault\<close> an exception that leaves the handler.
\<close>

definition create :: "env \<Rightarrow> jsval \<Rightarrow> server \<Rightarrow> reply \<times> server" where
  "create ev body s =
     (let date_v = body_prop body ''date'';
          category_v = body_prop body ''category'';
          payee_v = body_prop body ''payee'';
          amount_v = body_prop body ''amount'';
          notes_v = body_prop body ''notes''
      in if \<not> truthy date_v \<or> \<not> truthy category_v \<or> amount_v = Undefined
         then (Rejected ''date, category, and amount are required'', s)
         else (case to_number amount_v of
                 Inl e \<Rightarrow> (Fault e, s)
               | Inr numAmt \<Rightarrow>
                   if is_nan numAmt then (Rejected ''amount must be a number'', s)
                   else (let r = \<lparr> rec_id = Str (gen_id ev),
                                   date = date_v,
                                   category = category_v,
                                   payee = or_else payee_v (Str []),
                                   amount = Num numAmt,
                                   rec_notes = or_else notes_v (Str []) \<rparr>;
                             s1 = s \<lparr> transactions := transactions s @ [r] \<rparr>
                         in (case appendOne r (disk s1) of
                               Inl e \<Rightarrow> (Fault e, s1)
                             | Inr d \<Rightarrow> (Created r, s1 \<lparr> disk := d \<rparr>)))))"

text \<open>
  \<open>res.json(rec)\<close> sends the JSON text of the record. \<open>JSON.stringify\<close> writes a number
  that is not finite as \<open>null\<close>; this is the amount that the client reads.
\<close>

definition json_amount :: "transaction \<Rightarrow> jsval" where
  "json_amount r = (if amount r \<in> {Num NaN, Num PosInf, Num NegInf} then Null else amount r)"

fun is_rejected :: "reply \<Rightarrow> bool" where
  "is_rejected (Rejected msg) = True"
| "is_rejected _ = False"

text \<open>The requests of one process, handled one after the other.\<close>

datatype request = Get | Post env jsval

fun handle :: "request \<Rightarrow> server \<Rightarrow> reply \<times> server" where
  "handle Get s = list_transactions s"
| "handle (Post ev body) s = create ev body s"

fun run :: "request list \<Rightarrow> server \<Rightarrow> server" where
  "run [] s = s"
| "run (q # qs) s = run qs (snd (handle q s))"

text \<open>The states of a process: after its start, and after each request.\<close>

inductive reachable :: "server \<Rightarrow> bool" where
  start: "startup d = Inr s \<Longrightarrow> reachable s"
| step: "reachable s \<Longrightarrow> reachable (snd (handle q s))"

text \<open>A value that \<open>String\<close> converts without an exception.\<close>

definition printable :: "jsval \<Rightarrow> bool" where
  "printable v = (case to_string v of Inl e \<Rightarrow> False | Inr s \<Rightarrow> True)"

text \<open>
  The record that \<open>create\<close> builds for a request, given the number \<open>x\<close> that its amount
  converts to.
\<close>

definition new_record :: "env \<Rightarrow> jsval \<Rightarrow> jsnum \<Rightarrow> transaction" where
  "new_record ev body x =
     \<lparr> rec_id = Str (gen_id ev),
       date = body_prop body ''date'',
       category = body_prop body ''category'',
       payee = or_else (body_prop body ''payee'') (Str []),
       amount = Num x,
       rec_notes = or_else (body_prop body ''notes'') (Str []) \<rparr>"

text \<open>
  Loading as the specification words it, to be compared with \<open>loadAll\<close>: the text of the
  file is split into lines, the first line and the empty lines are discarded, and each
  remaining line is decoded.
\<close>

definition loadAll_spec :: "string \<Rightarrow> transaction list" where
  "loadAll_spec text = map parseCsvLine (filter (\<lambda>l. l \<noteq> []) (tl (split newline text)))"

section \<open>Notions for the statements\<close>

text \<open>The characters of the text of a finite number.\<close>

definition num_char :: "char \<Rightarrow> bool" where
  "num_char c \<longleftrightarrow> c \<in> set ''0123456789.e+-''"

text \<open>
  A text that \<open>trim\<close> leaves alone: it is empty, or begins and ends with a character
  other than white space.
\<close>

definition trimmed :: "string \<Rightarrow> bool" where
  "trimmed s \<longleftrightarrow> s = [] \<or> (\<not> is_ws (hd s) \<and> \<not> is_ws (last s))"

text \<open>
  Two amounts are the same when they are the same value or numerically equal numbers,
  and two records when their amounts are the same and their other fields are equal.
\<close>

definition same_amount :: "jsval \<Rightarrow> jsval \<Rightarrow> bool" where
  "same_amount a b \<longleftrightarrow>
     a = b \<or> (case a of Num x \<Rightarrow> (case b of Num y \<Rightarrow> num_eq x y | _ \<Rightarrow> False) | _ \<Rightarrow> False)"

definition same_transaction :: "transaction \<Rightarrow> transaction \<Rightarrow> bool" where
  "same_transaction p r \<longleftrightarrow>
     rec_id p = rec_id r \<and> date p = date r \<and> category p = category r
     \<and> payee p = payee r \<and> same_amount (amount p) (amount r) \<and> rec_notes p = rec_notes r"

text \<open>A field that is a string with the property \<open>P\<close>.\<close>

definition is_text :: "(string \<Rightarrow> bool) \<Rightarrow> jsval \<Rightarrow> bool" where
  "is_text P v = (case v of Str s \<Rightarrow> P s | _ \<Rightarrow> False)"

text \<open>A record whose five text fields are strings with the property \<open>P\<close> and whose amount
  is a number.\<close>

definition text_record :: "(string \<Rightarrow> bool) \<Rightarrow> transaction \<Rightarrow> bool" where
  "text_record P r \<longleftrightarrow>
     is_text P (rec_id r) \<and> is_text P (date r) \<and> is_text P (category r)
     \<and> is_text P (payee r) \<and> is_text P (rec_notes r)
     \<and> (case amount r of Num x \<Rightarrow> True | _ \<Rightarrow> False)"

text \<open>
  One encode and decode cycle: the record is encoded, and the line without its
  terminating newline, which is what the loader cuts out of the file, decodes to the same
  record.
\<close>

definition roundtrips :: "transaction \<Rightarrow> bool" where
  "roundtrips r =
     (case toCsvLine r of
        Inl e \<Rightarrow> False
      | Inr l \<Rightarrow> l \<noteq> [] \<and> last l = newline \<and> same_transaction (parseCsvLine (butlast l)) r)"

text \<open>
  A text that is written to a line of the file as it stands: no comma, no newline, no
  white space at either end.
\<close>

definition line_safe :: "string \<Rightarrow> bool" where
  "line_safe s \<longleftrightarrow> comma \<notin> set s \<and> newline \<notin> set s \<and> trimmed s"

text \<open>
  A create request that is stored as it stands: the generated identifier, the date and
  the category are such texts (the last two not empty), payee and notes are absent
  (falsy) or such texts, and the amount is defined and converts to a number other than
  not-a-number.
\<close>

definition clean_post :: "env \<Rightarrow> jsval \<Rightarrow> bool" where
  "clean_post ev body \<longleftrightarrow>
     line_safe (gen_id ev)
     \<and> is_text (\<lambda>s. s \<noteq> [] \<and> line_safe s) (body_prop body ''date'')
     \<and> is_text (\<lambda>s. s \<noteq> [] \<and> line_safe s) (body_prop body ''category'')
     \<and> (\<not> truthy (body_prop body ''payee'') \<or> is_text line_safe (body_prop body ''payee''))
     \<and> body_prop body ''amount'' \<noteq> Undefined
     \<and> (case to_number (body_prop body ''amount'') of Inl e \<Rightarrow> False | Inr x \<Rightarrow> \<not> is_nan x)
     \<and> (\<not> truthy (body_prop body ''notes'') \<or> is_text line_safe (body_prop body ''notes''))"

fun clean_request :: "request \<Rightarrow> bool" where
  "clean_request Get = True"
| "clean_request (Post ev body) = clean_post ev body"

text \<open>
  The array and the file agree: decoding the data lines of the file gives the records
  of the array, one for one and in the same order.
\<close>

definition in_sync :: "server \<Rightarrow> bool" where
  "in_sync s =
     (case loadAll (disk s) of
        Inl e \<Rightarrow> False
      | Inr (txs, d) \<Rightarrow> list_all2 same_transaction txs (transactions s))"

text \<open>
  A file text that ends in a character other than white space, followed by one newline;
  a store with such a file, or with no file yet; and a state whose file is so and agrees
  with the array.
\<close>

definition ends_cleanly :: "string \<Rightarrow> bool" where
  "ends_cleanly c \<longleftrightarrow>
     c \<noteq> [] \<and> last c = newline \<and> butlast c \<noteq> [] \<and> \<not> is_ws (last (butlast c))"

definition well_formed_store :: "fs \<Rightarrow> bool" where
  "well_formed_store d = (case d of File c \<Rightarrow> ends_cleanly c | _ \<Rightarrow> True)"

definition steady :: "server \<Rightarrow> bool" where
  "steady s \<longleftrightarrow> (case disk s of File c \<Rightarrow> ends_cleanly c | _ \<Rightarrow> False) \<and> in_sync s"

text \<open>The records that \<open>loadAll\<close> reads from a file text.\<close>

definition rows :: "string \<Rightarrow> transaction list" where
  "rows c = map parseCsvLine (filter (\<lambda>l. l \<noteq> []) (tl (split newline (trim c))))"

text \<open>
  A plain decimal string: an optional minus sign, digits, and optionally a point followed
  by digits.
\<close>

definition unsigned_decimal :: "string \<Rightarrow> bool" where
  "unsigned_decimal u \<longleftrightarrow>
     (let ip = takeWhile is_digit u;
          r = dropWhile is_digit u
      in ip \<noteq> [] \<and> (r = [] \<or> (hd r = CHR ''.'' \<and> tl r \<noteq> [] \<and> list_all is_digit (tl r))))"

definition plain_decimal :: "string \<Rightarrow> bool" where
  "plain_decimal s \<longleftrightarrow> unsigned_decimal (if s \<noteq> [] \<and> hd s = CHR ''-'' then tl s else s)"

text \<open>
  The finite numbers that are zero or whose magnitude \<open>\<bar>m\<bar> * 10 ^ e\<close> is at least
  \<open>10 ^ -6\<close> and less than \<open>10 ^ 21\<close>.
\<close>

fun in_fixed_range :: "jsnum \<Rightarrow> bool" where
  "in_fixed_range (Fin m e) =
     (m = 0 \<or> (10 ^ nat (- e - 6) \<le> \<bar>m\<bar> * 10 ^ nat (e + 6)
               \<and> \<bar>m\<bar> * 10 ^ nat e < 10 ^ (21 + nat (- e))))"
| "in_fixed_range _ = False"

text \<open>
  The texts that \<open>Number\<close> reads as a number, white space at both ends set aside: the
  string numeric literals of the language. Decimal digits; an exponent part (\<open>e\<close> or
  \<open>E\<close>, an optional sign, digits); an unsigned decimal literal (\<open>Infinity\<close>, digits with
  an optional point, fraction and exponent, or a point with fraction digits); a binary,
  octal or hexadecimal integer literal; and, at the top, the empty text, an unsigned
  decimal literal with an optional sign, or an integer literal of another radix.
\<close>

definition decimal_digits :: "string \<Rightarrow> bool" where
  "decimal_digits ds \<longleftrightarrow> ds \<noteq> [] \<and> list_all is_digit ds"

inductive exponent_part :: "string \<Rightarrow> bool" where
  unsigned_exponent: "c \<in> set ''eE'' \<Longrightarrow> decimal_digits ds \<Longrightarrow> exponent_part (c # ds)"
| signed_exponent:
    "c \<in> set ''eE'' \<Longrightarrow> sg \<in> set ''+-'' \<Longrightarrow> decimal_digits ds \<Longrightarrow>
       exponent_part (c # sg # ds)"

inductive str_unsigned :: "string \<Rightarrow> bool" where
  infinity: "str_unsigned ''Infinity''"
| point:
    "decimal_digits ip \<Longrightarrow> fp = [] \<or> decimal_digits fp \<Longrightarrow> ex = [] \<or> exponent_part ex \<Longrightarrow>
       str_unsigned (ip @ CHR ''.'' # fp @ ex)"
| fraction:
    "decimal_digits fp \<Longrightarrow> ex = [] \<or> exponent_part ex \<Longrightarrow>
       str_unsigned (CHR ''.'' # fp @ ex)"
| whole:
    "decimal_digits ip \<Longrightarrow> ex = [] \<or> exponent_part ex \<Longrightarrow> str_unsigned (ip @ ex)"

inductive non_decimal_literal :: "string \<Rightarrow> bool" where
  binary:
    "x \<in> set ''bB'' \<Longrightarrow> ds \<noteq> [] \<Longrightarrow> set ds \<subseteq> set ''01'' \<Longrightarrow>
       non_decimal_literal (CHR ''0'' # x # ds)"
| octal:
    "x \<in> set ''oO'' \<Longrightarrow> ds \<noteq> [] \<Longrightarrow> set ds \<subseteq> set ''01234567'' \<Longrightarrow>
       non_decimal_literal (CHR ''0'' # x # ds)"
| hex:
    "x \<in> set ''xX'' \<Longrightarrow> ds \<noteq> [] \<Longrightarrow> set ds \<subseteq> set ''0123456789abcdefABCDEF'' \<Longrightarrow>
       non_decimal_literal (CHR ''0'' # x # ds)"

inductive numeric_text :: "string \<Rightarrow> bool" where
  blank: "numeric_text []"
| unsigned: "str_unsigned u \<Longrightarrow> numeric_text u"
| plus: "str_unsigned u \<Longrightarrow> numeric_text (CHR ''+'' # u)"
| minus: "str_unsigned u \<Longrightarrow> numeric_text (CHR ''-'' # u)"
| non_decimal: "non_decimal_literal t \<Longrightarrow> numeric_text t"

declare digits_of.simps [simp del]

section \<open>Validation of a create request\<close>

lemma ensureCsv_cases [simp]:
  "ensureCsv NoDir = Inr (File header)"
  "ensureCsv DirOnly = Inr (File header)"
  "ensureCsv (File c) = Inr (File c)"
  by (simp_all add: ensureCsv_def)

lemma falsy_cases:
  "\<not> truthy v \<longleftrightarrow>
     v = Undefined \<or> v = Null \<or> v = Str [] \<or> v = Bool False \<or> (\<exists>x. v = Num x \<and> falsy_num x)"
  by (cases v) auto

lemma create_rejected_iff:
  "is_rejected (fst (create ev body s)) \<longleftrightarrow>
     (\<not> truthy (body_prop body ''date'') \<or> \<not> truthy (body_prop body ''category'')
      \<or> body_prop body ''amount'' = Undefined
      \<or> to_number (body_prop body ''amount'') = Inr NaN)"
  by (auto simp: create_def Let_def is_nan_def split: sum.splits)

lemma create_rejected_state:
  "is_rejected (fst (create ev body s)) \<Longrightarrow> snd (create ev body s) = s"
  by (auto simp: create_def Let_def is_nan_def split: sum.splits if_splits)

text \<open>
  Claim C1. A create request is answered with status 400 exactly when its \<open>date\<close> is
  absent or empty, or its \<open>category\<close> is absent or empty, or its \<open>amount\<close> is \<open>undefined\<close>,
  or \<open>Number(amount)\<close> is not-a-number. Absent or empty is what \<open>!date\<close> tests: a
  string is falsy exactly when it is empty, and a missing property (\<open>undefined\<close>) and
  \<open>null\<close> are falsy; \<open>falsy_cases\<close> lists the other falsy values, none of them a string.
  An amount is missing only when it is \<open>undefined\<close>. A rejected request changes neither
  the array nor the disk, and the list that follows is the one before.
\<close>

theorem create_rejects_exactly_invalid:
  "(is_rejected (fst (create ev body s)) \<longleftrightarrow>
      (\<not> truthy (body_prop body ''date'') \<or> \<not> truthy (body_prop body ''category'')
       \<or> body_prop body ''amount'' = Undefined
       \<or> to_number (body_prop body ''amount'') = Inr NaN))
   \<and> (is_rejected (fst (create ev body s)) \<longrightarrow>
        snd (create ev body s) = s
        \<and> fst (list_transactions (snd (create ev body s))) = Listing (transactions s))
   \<and> (\<not> truthy (Str t) \<longleftrightarrow> t = []) \<and> \<not> truthy Undefined \<and> \<not> truthy Null"
  using create_rejected_iff [of ev body s] create_rejected_state [of ev body s]
  by (simp add: list_transactions_def)

theorem create_rejects_exactly_invalid_witness:
  "is_rejected (fst (create \<lparr> uuid = None, now = 1700000000000 \<rparr>
       (Obj [(''date'', Str ''2025-01-01''), (''category'', Str ''Food'')])
       \<lparr> transactions = [], disk = File header \<rparr>))
   \<and> snd (create \<lparr> uuid = None, now = 1700000000000 \<rparr>
       (Obj [(''date'', Str ''2025-01-01''), (''category'', Str ''Food'')])
       \<lparr> transactions = [], disk = File header \<rparr>)
     = \<lparr> transactions = [], disk = File header \<rparr>"
  using create_rejects_exactly_invalid [of "\<lparr> uuid = None, now = 1700000000000 \<rparr>"
      "Obj [(''date'', Str ''2025-01-01''), (''category'', Str ''Food'')]"
      "\<lparr> transactions = [], disk = File header \<rparr>" "[]"]
  by (simp add: body_prop_def get_prop_def or_else_def)

section \<open>Accepting a create request\<close>

lemma printable_safe: "printable v \<Longrightarrow> \<exists>t. safe v = Inr t"
  by (auto simp: printable_def safe_def bind_def nullish_or_def split: sum.splits)

lemma printable_or_else: "printable v \<Longrightarrow> printable (or_else v (Str []))"
  by (simp add: or_else_def printable_def)

lemma printable_Str [simp]: "printable (Str t)"
  by (simp add: printable_def)

lemma amount_text_Num: "\<exists>t. amount_text (Num x) = Inr t"
  by (simp add: amount_text_def bind_def)

lemma toCsvLine_printable:
  assumes "printable (rec_id r)" "printable (date r)" "printable (category r)"
    "printable (payee r)" "printable (rec_notes r)" "amount r = Num x"
  shows "\<exists>l. toCsvLine r = Inr l"
proof -
  from assms obtain f0 f1 f2 f3 f5 where
    "safe (rec_id r) = Inr f0" "safe (date r) = Inr f1" "safe (category r) = Inr f2"
    "safe (payee r) = Inr f3" "safe (rec_notes r) = Inr f5"
    by (meson printable_safe)
  moreover obtain f4 where "amount_text (amount r) = Inr f4"
    using amount_text_Num assms(6) by auto
  ultimately show ?thesis by (simp add: toCsvLine_def bind_def)
qed

lemma new_record_printable:
  assumes "printable (body_prop body ''date'')" "printable (body_prop body ''category'')"
    "printable (body_prop body ''payee'')" "printable (body_prop body ''notes'')"
  shows "\<exists>l. toCsvLine (new_record ev body x) = Inr l"
  using assms by (intro toCsvLine_printable [where x = x]) (simp_all add: new_record_def printable_or_else)

lemma create_accepts:
  assumes "truthy (body_prop body ''date'')" and "truthy (body_prop body ''category'')"
    and "body_prop body ''amount'' \<noteq> Undefined"
    and "to_number (body_prop body ''amount'') = Inr x" and "x \<noteq> NaN"
    and "toCsvLine (new_record ev body x) = Inr l"
    and "disk s = File c"
  shows "create ev body s =
           (Created (new_record ev body x),
            \<lparr> transactions = transactions s @ [new_record ev body x], disk = File (c @ l) \<rparr>)"
  using assms
  by (simp add: create_def Let_def is_nan_def appendOne_def bind_def new_record_def)

lemma reachable_file: "reachable s \<Longrightarrow> \<exists>c. disk s = File c"
proof (induction rule: reachable.induct)
  case (start d s)
  then show ?case
    by (cases d) (auto simp: startup_def loadAll_def bind_def Let_def split: sum.splits)
next
  case (step s q)
  then obtain c where c: "disk s = File c" by blast
  show ?case
  proof (cases q)
    case Get
    then show ?thesis using c by (simp add: list_transactions_def)
  next
    case (Post ev body)
    then show ?thesis using c
      by (auto simp: create_def Let_def appendOne_def bind_def split: sum.splits)
  qed
qed

lemma startup_fresh: "startup NoDir = Inr \<lparr> transactions = [], disk = File header \<rparr>"
  by (simp add: startup_def loadAll_def bind_def header_def trim_def is_ws_def newline_def)

lemma reachable_fresh: "reachable \<lparr> transactions = [], disk = File header \<rparr>"
  using reachable.start [OF startup_fresh] .

section \<open>Falsy amounts\<close>




section \<open>Listing\<close>

lemma handle_appends: "\<exists>ys. transactions (snd (handle q s)) = transactions s @ ys"
proof (cases q)
  case Get
  then show ?thesis by (simp add: list_transactions_def)
next
  case (Post ev body)
  then show ?thesis
    by (auto simp: create_def Let_def split: sum.splits)
qed

lemma run_appends: "\<exists>ys. transactions (run qs s) = transactions s @ ys"
proof (induction qs arbitrary: s)
  case Nil
  then show ?case by simp
next
  case (Cons q qs)
  obtain ys where "transactions (snd (handle q s)) = transactions s @ ys"
    using handle_appends by blast
  moreover obtain zs where
    "transactions (run qs (snd (handle q s))) = transactions (snd (handle q s)) @ zs"
    using Cons.IH by blast
  ultimately show ?case by simp
qed

lemma created_appends:
  "create ev body s = (Created t, s') \<Longrightarrow> transactions s' = transactions s @ [t]"
  by (auto simp: create_def Let_def split: sum.splits if_splits)

text \<open>
  Claim C9. The list request takes no input, answers with the whole array as it stands
  and changes nothing. When a request creates \<open>t1\<close> and a later request of the same
  process creates \<open>t2\<close>, whatever requests come between and after, every later list holds
  all that the array held before, then \<open>t1\<close>, and \<open>t2\<close> somewhere after \<open>t1\<close>.
\<close>

theorem list_in_append_order:
  "list_transactions s = (Listing (transactions s), s)
   \<and> (create ev1 b1 s = (Created t1, s1) \<and> create ev2 b2 (run qs s1) = (Created t2, s2)
        \<longrightarrow> (\<exists>ys zs. fst (list_transactions (run qs' s2))
                        = Listing (transactions s @ t1 # ys @ t2 # zs)))"
proof (intro conjI impI)
  show "list_transactions s = (Listing (transactions s), s)"
    by (simp add: list_transactions_def)
next
  assume a: "create ev1 b1 s = (Created t1, s1) \<and> create ev2 b2 (run qs s1) = (Created t2, s2)"
  then have 1: "transactions s1 = transactions s @ [t1]"
    using created_appends by blast
  obtain ys where 2: "transactions (run qs s1) = transactions s1 @ ys"
    using run_appends by blast
  have 3: "transactions s2 = transactions (run qs s1) @ [t2]"
    using a created_appends by blast
  obtain zs where 4: "transactions (run qs' s2) = transactions s2 @ zs"
    using run_appends by blast
  show "\<exists>ys zs. fst (list_transactions (run qs' s2))
                  = Listing (transactions s @ t1 # ys @ t2 # zs)"
    using 1 2 3 4 by (intro exI [of _ ys] exI [of _ zs]) (simp add: list_transactions_def)
qed

lemmas codec_defs =
  toCsvLine_def safe_def amount_text_def bind_def nullish_or_def trim_def replace_commas_def
  is_ws_def comma_def space_def render_pos_def layout_def digit_char_def digits_of.simps

lemmas create_defs =
  create_def Let_def body_prop_def get_prop_def or_else_def is_nan_def appendOne_def
  gen_id_def codec_defs

theorem list_in_append_order_witness:
  "create \<lparr> uuid = Some ''a'', now = 1 \<rparr>
      (Obj [(''date'', Str ''d1''), (''category'', Str ''c1''), (''amount'', Num (Fin 1 0))])
      \<lparr> transactions = [], disk = File [] \<rparr>
    = (Created \<lparr> rec_id = Str ''a'', date = Str ''d1'', category = Str ''c1'',
                 payee = Str [], amount = Num (Fin 1 0), rec_notes = Str [] \<rparr>,
       \<lparr> transactions =
           [\<lparr> rec_id = Str ''a'', date = Str ''d1'', category = Str ''c1'',
              payee = Str [], amount = Num (Fin 1 0), rec_notes = Str [] \<rparr>],
         disk = File (''a,d1,c1,,1,'' @ [newline]) \<rparr>)
   \<and> (\<exists>ys zs. fst (list_transactions (snd
         (create \<lparr> uuid = Some ''b'', now = 2 \<rparr>
            (Obj [(''date'', Str ''d2''), (''category'', Str ''c2''), (''amount'', Num (Fin 2 0))])
            \<lparr> transactions =
                [\<lparr> rec_id = Str ''a'', date = Str ''d1'', category = Str ''c1'',
                   payee = Str [], amount = Num (Fin 1 0), rec_notes = Str [] \<rparr>],
              disk = File (''a,d1,c1,,1,'' @ [newline]) \<rparr>)))
       = Listing ([] @ \<lparr> rec_id = Str ''a'', date = Str ''d1'', category = Str ''c1'',
                   payee = Str [], amount = Num (Fin 1 0), rec_notes = Str [] \<rparr>
                  # ys @ \<lparr> rec_id = Str ''b'', date = Str ''d2'', category = Str ''c2'',
                   payee = Str [], amount = Num (Fin 2 0), rec_notes = Str [] \<rparr> # zs))"
proof -
  let ?t1 = "\<lparr> rec_id = Str ''a'', date = Str ''d1'', category = Str ''c1'',
                 payee = Str [], amount = Num (Fin 1 0), rec_notes = Str [] \<rparr>"
  let ?t2 = "\<lparr> rec_id = Str ''b'', date = Str ''d2'', category = Str ''c2'',
                 payee = Str [], amount = Num (Fin 2 0), rec_notes = Str [] \<rparr>"
  let ?s0 = "\<lparr> transactions = [], disk = File [] \<rparr>"
  let ?s1 = "\<lparr> transactions = [?t1], disk = File (''a,d1,c1,,1,'' @ [newline]) \<rparr>"
  let ?s2 = "\<lparr> transactions = [?t1, ?t2],
      disk = File (''a,d1,c1,,1,'' @ [newline] @ ''b,d2,c2,,2,'' @ [newline]) \<rparr>"
  let ?ev1 = "\<lparr> uuid = Some ''a'', now = 1 \<rparr>"
  let ?ev2 = "\<lparr> uuid = Some ''b'', now = 2 \<rparr>"
  let ?b1 = "Obj [(''date'', Str ''d1''), (''category'', Str ''c1''), (''amount'', Num (Fin 1 0))]"
  let ?b2 = "Obj [(''date'', Str ''d2''), (''category'', Str ''c2''), (''amount'', Num (Fin 2 0))]"
  have c1: "create ?ev1 ?b1 ?s0 = (Created ?t1, ?s1)"
    by (simp add: create_defs)
  have c2: "create ?ev2 ?b2 (run [] ?s1) = (Created ?t2, ?s2)"
    by (simp add: create_defs)
  from list_in_append_order [of ?s0 ?ev1 ?b1 ?t1 ?s1 ?ev2 ?b2 "[]" ?t2 ?s2 "[]"] c1 c2
  have "\<exists>ys zs. fst (list_transactions (run [] ?s2)) = Listing ([] @ ?t1 # ys @ ?t2 # zs)"
    by simp
  moreover have "snd (create ?ev2 ?b2 ?s1) = ?s2"
    using c2 by simp
  ultimately show ?thesis
    using c1 by simp
qed

section \<open>Splitting and joining\<close>

lemma split_nonempty [simp]: "split d s \<noteq> []"
  by (induction s) (auto simp: Let_def)

lemma split_no_sep: "d \<notin> set x \<Longrightarrow> split d x = [x]"
  by (induction x) (auto simp: Let_def)

lemma split_sep: "d \<notin> set x \<Longrightarrow> split d (x @ d # y) = x # split d y"
  by (induction x) (auto simp: Let_def)

lemma split_join:
  "fs \<noteq> [] \<Longrightarrow> \<forall>f\<in>set fs. d \<notin> set f \<Longrightarrow> split d (join d fs) = fs"
  by (induction d fs rule: join.induct) (auto simp: split_no_sep split_sep)

lemma join_split: "join d (split d s) = s"
proof (induction s)
  case Nil
  then show ?case by simp
next
  case (Cons c cs)
  obtain f fs where "split d cs = f # fs"
    by (cases "split d cs") auto
  then show ?case using Cons by (cases fs) (auto simp: Let_def)
qed

lemma split_pieces: "f \<in> set (split d s) \<Longrightarrow> d \<notin> set f"
proof (induction s arbitrary: f)
  case Nil
  then show ?case by simp
next
  case (Cons c cs)
  obtain g gs where "split d cs = g # gs"
    by (cases "split d cs") auto
  then show ?case using Cons by (auto simp: Let_def split: if_splits)
qed

lemma split_app: "split d (x @ d # y) = split d x @ split d y"
proof (induction x)
  case Nil
  then show ?case by simp
next
  case (Cons c cs)
  obtain g gs where "split d cs = g # gs"
    by (cases "split d cs") auto
  then show ?case using Cons by (auto simp: Let_def)
qed

section \<open>Decoding a line\<close>

lemmas number_defs =
  string_to_number_def trim_def is_ws_def parse_nondecimal_def parse_unsigned_def
  parse_decimal_def is_digit_def parse_exponent_def nat_of_digits_def digit_val_def

lemma parseCsvLine_join:
  assumes "fs \<noteq> []" "\<forall>f\<in>set fs. comma \<notin> set f"
  shows "parseCsvLine (join comma fs) =
     \<lparr> rec_id = field fs 0, date = field fs 1, category = field fs 2, payee = field fs 3,
       amount = Num (if 4 < length fs then string_to_number (fs ! 4) else NaN),
       rec_notes = (if 5 < length fs then Str (fs ! 5) else Str []) \<rparr>"
  using assms by (simp add: parseCsvLine_def split_join field_def nullish_or_def)

lemma string_to_number_non_numeric:
  assumes "trim s = c # r" "\<not> is_digit c" "c \<notin> set ''+-.I''"
  shows "string_to_number s = NaN"
  using assms
  by (auto simp: string_to_number_def parse_nondecimal_def parse_unsigned_def
      parse_decimal_def is_digit_def split: list.splits)

subsection \<open>Numeric text\<close>

lemma exp_marker: "c \<in> set ''eE'' \<longleftrightarrow> c = CHR ''e'' \<or> c = CHR ''E''"
  by auto

lemma exp_sign: "sg \<in> set ''+-'' \<longleftrightarrow> sg = CHR ''+'' \<or> sg = CHR ''-''"
  by auto

lemma digit_not_sign: "is_digit c \<Longrightarrow> c \<noteq> CHR ''+'' \<and> c \<noteq> CHR ''-'' \<and> c \<noteq> CHR ''.''
   \<and> c \<noteq> CHR ''e'' \<and> c \<noteq> CHR ''E'' \<and> c \<noteq> CHR ''I''"
  by (auto simp: is_digit_def)

lemma parse_exponent_plain:
  assumes "c = CHR ''e'' \<or> c = CHR ''E''" and "y \<noteq> CHR ''+''" and "y \<noteq> CHR ''-''"
  shows "parse_exponent (c # y # r) \<noteq> None \<longleftrightarrow> list_all is_digit (y # r)"
  using assms by (simp add: parse_exponent_def Let_def)

lemma parse_exponent_sign:
  assumes "c = CHR ''e'' \<or> c = CHR ''E''" and "y = CHR ''+'' \<or> y = CHR ''-''"
  shows "parse_exponent (c # y # r) \<noteq> None \<longleftrightarrow> r \<noteq> [] \<and> list_all is_digit r"
  using assms by (simp add: parse_exponent_def Let_def)

lemma parse_exponent_short:
  "parse_exponent [c] = None"
  by (simp add: parse_exponent_def)

lemma parse_exponent_other:
  "\<not> (c = CHR ''e'' \<or> c = CHR ''E'') \<Longrightarrow> parse_exponent (c # r) = None"
  by (simp add: parse_exponent_def)

lemma exponent_part_parse: "exponent_part ex \<longleftrightarrow> ex \<noteq> [] \<and> parse_exponent ex \<noteq> None"
proof
  assume "exponent_part ex"
  then show "ex \<noteq> [] \<and> parse_exponent ex \<noteq> None"
  proof cases
    case (unsigned_exponent c ds)
    then obtain y r where ds: "ds = y # r" and d: "list_all is_digit (y # r)"
      by (cases ds) (auto simp: decimal_digits_def)
    then have "is_digit y" by simp
    then have "y \<noteq> CHR ''+''" "y \<noteq> CHR ''-''" using digit_not_sign by blast+
    then show ?thesis
      using unsigned_exponent(1,2) d parse_exponent_plain [of c y r] unfolding ds exp_marker
      by blast
  next
    case (signed_exponent c sg ds)
    then show ?thesis
      using parse_exponent_sign [of c sg ds] unfolding exp_marker exp_sign decimal_digits_def
      by blast
  qed
next
  assume a: "ex \<noteq> [] \<and> parse_exponent ex \<noteq> None"
  then obtain c r where ex: "ex = c # r" by (cases ex) auto
  have c: "c = CHR ''e'' \<or> c = CHR ''E''"
    using a parse_exponent_other [of c r] unfolding ex by fastforce
  show "exponent_part ex"
  proof (cases r)
    case Nil
    then show ?thesis using a parse_exponent_short [of c] unfolding ex by simp
  next
    case (Cons y r')
    show ?thesis
    proof (cases "y = CHR ''+'' \<or> y = CHR ''-''")
      case True
      then have "decimal_digits r'"
        using a c parse_exponent_sign [of c y r'] unfolding ex Cons decimal_digits_def by blast
      then show ?thesis unfolding ex Cons using c True
        by (intro signed_exponent) (simp_all only: exp_marker exp_sign)
    next
      case False
      then have "decimal_digits r"
        using a c parse_exponent_plain [of c y r'] unfolding ex Cons decimal_digits_def by blast
      then show ?thesis unfolding ex using c
        by (intro unsigned_exponent) (simp_all only: exp_marker)
    qed
  qed
qed

lemma takeWhile_digits:
  "list_all is_digit ds \<Longrightarrow> (r = [] \<or> \<not> is_digit (hd r)) \<Longrightarrow> takeWhile is_digit (ds @ r) = ds"
  by (induction ds) (auto simp: takeWhile_eq_Nil_iff)

lemma dropWhile_digits:
  "list_all is_digit ds \<Longrightarrow> (r = [] \<or> \<not> is_digit (hd r)) \<Longrightarrow> dropWhile is_digit (ds @ r) = r"
  by (induction ds) (auto simp: dropWhile_eq_self_iff)

lemma digits_split:
  obtains ip r where "s = ip @ r" "list_all is_digit ip" "r = [] \<or> \<not> is_digit (hd r)"
proof
  show "s = takeWhile is_digit s @ dropWhile is_digit s" by simp
  show "list_all is_digit (takeWhile is_digit s)"
    unfolding list_all_iff using set_takeWhileD by fastforce
  show "dropWhile is_digit s = [] \<or> \<not> is_digit (hd (dropWhile is_digit s))"
    using hd_dropWhile [of is_digit s] by blast
qed

lemma parse_decimal_whole:
  assumes "list_all is_digit ip" "r = [] \<or> \<not> is_digit (hd r)" "r = [] \<or> hd r \<noteq> CHR ''.''"
  shows "parse_decimal (ip @ r) \<noteq> NaN \<longleftrightarrow> ip \<noteq> [] \<and> parse_exponent r \<noteq> None"
proof -
  have t: "takeWhile is_digit (ip @ r) = ip" and d: "dropWhile is_digit (ip @ r) = r"
    using takeWhile_digits [of ip r] dropWhile_digits [of ip r] assms(1,2) by blast+
  show ?thesis unfolding parse_decimal_def t d using assms(3)
    by (cases r) (auto simp: Let_def split: option.splits)
qed

lemma parse_decimal_fraction:
  assumes "list_all is_digit ip" "list_all is_digit fp" "r = [] \<or> \<not> is_digit (hd r)"
  shows "parse_decimal (ip @ CHR ''.'' # fp @ r) \<noteq> NaN
           \<longleftrightarrow> (ip \<noteq> [] \<or> fp \<noteq> []) \<and> parse_exponent r \<noteq> None"
proof -
  have "\<not> is_digit (CHR ''.'')" by (simp add: is_digit_def)
  then have t: "takeWhile is_digit (ip @ CHR ''.'' # fp @ r) = ip"
    and d: "dropWhile is_digit (ip @ CHR ''.'' # fp @ r) = CHR ''.'' # fp @ r"
    using takeWhile_digits [of ip "CHR ''.'' # fp @ r"]
      dropWhile_digits [of ip "CHR ''.'' # fp @ r"] assms(1) by simp_all
  have t2: "takeWhile is_digit (fp @ r) = fp" and d2: "dropWhile is_digit (fp @ r) = r"
    using takeWhile_digits [of fp r] dropWhile_digits [of fp r] assms(2,3) by blast+
  show ?thesis unfolding parse_decimal_def t d
    by (simp add: t2 d2 Let_def split: option.splits)
qed

lemma exponent_part_head:
  assumes "ex = [] \<or> exponent_part ex"
  shows "ex = [] \<or> \<not> is_digit (hd ex)" and "ex = [] \<or> hd ex \<noteq> CHR ''.''"
    and "ex = [] \<or> hd ex = CHR ''e'' \<or> hd ex = CHR ''E''"
    and "parse_exponent ex \<noteq> None"
proof -
  have h: "ex = [] \<or> hd ex = CHR ''e'' \<or> hd ex = CHR ''E''"
    using assms by (auto elim: exponent_part.cases)
  then show "ex = [] \<or> hd ex = CHR ''e'' \<or> hd ex = CHR ''E''" .
  show "ex = [] \<or> \<not> is_digit (hd ex)" using h by (auto simp: is_digit_def)
  show "ex = [] \<or> hd ex \<noteq> CHR ''.''" using h by auto
  show "parse_exponent ex \<noteq> None"
    using assms exponent_part_parse [of ex] by (auto simp: parse_exponent_def)
qed

lemma exponent_part_tail:
  assumes "r = [] \<or> \<not> is_digit (hd r)" "parse_exponent r \<noteq> None"
  shows "r = [] \<or> exponent_part r"
  using assms exponent_part_parse [of r] by blast

lemma parse_nondecimal_digits:
  assumes "list_all is_digit ip"
    and "r = [] \<or> hd r = CHR ''.'' \<or> hd r = CHR ''e'' \<or> hd r = CHR ''E''"
  shows "parse_nondecimal (ip @ r) = None"
proof (cases "ip @ r")
  case Nil
  then show ?thesis by (simp add: parse_nondecimal_def)
next
  case (Cons z q)
  note zq = this
  show ?thesis
  proof (cases q)
    case Nil
    then show ?thesis unfolding zq by (simp add: parse_nondecimal_def)
  next
    case (Cons x ds)
    have "z \<noteq> CHR ''0'' \<or> is_digit x \<or> x = CHR ''.'' \<or> x = CHR ''e'' \<or> x = CHR ''E''"
    proof (cases ip)
      case Nil
      then have "hd r = z" "r \<noteq> []" using zq by auto
      then show ?thesis using assms(2) by auto
    next
      case c: (Cons a ip')
      show ?thesis
      proof (cases ip')
        case Nil
        then have "r = x # ds" using zq Cons c by simp
        then show ?thesis using assms(2) by auto
      next
        case (Cons b ip'')
        then have "x = b" using zq \<open>q = x # ds\<close> c by simp
        then show ?thesis using assms(1) c Cons by simp
      qed
    qed
    then have "z \<noteq> CHR ''0'' \<or> (x \<noteq> CHR ''x'' \<and> x \<noteq> CHR ''X'' \<and> x \<noteq> CHR ''o''
       \<and> x \<noteq> CHR ''O'' \<and> x \<noteq> CHR ''b'' \<and> x \<noteq> CHR ''B'')"
      by (auto simp: is_digit_def)
    then show ?thesis unfolding zq Cons by (auto simp: parse_nondecimal_def)
  qed
qed

lemma str_unsigned_shape:
  assumes "str_unsigned u"
  shows "u \<noteq> []" and "hd u \<noteq> CHR ''+''" and "hd u \<noteq> CHR ''-''"
    and "parse_nondecimal u = None" and "parse_unsigned u \<noteq> NaN"
proof -
  have "u \<noteq> [] \<and> hd u \<noteq> CHR ''+'' \<and> hd u \<noteq> CHR ''-'' \<and> parse_nondecimal u = None
      \<and> parse_unsigned u \<noteq> NaN"
    using assms
  proof cases
    case infinity
    then show ?thesis by (simp add: parse_nondecimal_def parse_unsigned_def)
  next
    case (point ip fp ex)
    note e = exponent_part_head [OF point(4)]
    have ip: "ip \<noteq> []" "list_all is_digit ip" using point(2) by (simp_all add: decimal_digits_def)
    have fp: "list_all is_digit fp" using point(3) by (auto simp: decimal_digits_def)
    have h: "is_digit (hd u)" using ip unfolding point(1) by (cases ip) auto
    have 1: "parse_decimal u \<noteq> NaN"
      unfolding point(1) using parse_decimal_fraction [OF ip(2) fp e(1)] ip(1) e(4) by blast
    have 2: "parse_nondecimal u = None"
      unfolding point(1) using parse_nondecimal_digits [OF ip(2), of "CHR ''.'' # fp @ ex"] by simp
    have 3: "u \<noteq> ''Infinity''" "hd u \<noteq> CHR ''+''" "hd u \<noteq> CHR ''-''"
      using h digit_not_sign [of "hd u"] by auto
    show ?thesis using 1 2 3 ip(1) unfolding parse_unsigned_def point(1) by simp
  next
    case (fraction fp ex)
    note e = exponent_part_head [OF fraction(3)]
    have fp: "fp \<noteq> []" "list_all is_digit fp"
      using fraction(2) by (simp_all add: decimal_digits_def)
    have 1: "parse_decimal u \<noteq> NaN"
      unfolding fraction(1) using parse_decimal_fraction [of "[]" fp ex] fp e(1,4) by simp
    have 2: "parse_nondecimal u = None"
      unfolding fraction(1) using parse_nondecimal_digits [of "[]" "CHR ''.'' # fp @ ex"] by simp
    show ?thesis using 1 2 unfolding parse_unsigned_def fraction(1) by simp
  next
    case (whole ip ex)
    note e = exponent_part_head [OF whole(3)]
    have ip: "ip \<noteq> []" "list_all is_digit ip" using whole(2) by (simp_all add: decimal_digits_def)
    have h: "is_digit (hd u)" using ip unfolding whole(1) by (cases ip) auto
    have 1: "parse_decimal u \<noteq> NaN"
      unfolding whole(1) using parse_decimal_whole [OF ip(2) e(1,2)] ip(1) e(4) by blast
    have 2: "parse_nondecimal u = None"
      unfolding whole(1) using parse_nondecimal_digits [OF ip(2), of ex] e(3) by blast
    have 3: "u \<noteq> ''Infinity''" "hd u \<noteq> CHR ''+''" "hd u \<noteq> CHR ''-''"
      using h digit_not_sign [of "hd u"] by auto
    show ?thesis using 1 2 3 ip(1) unfolding parse_unsigned_def whole(1) by simp
  qed
  then show "u \<noteq> []" and "hd u \<noteq> CHR ''+''" and "hd u \<noteq> CHR ''-''"
    and "parse_nondecimal u = None" and "parse_unsigned u \<noteq> NaN" by blast+
qed

lemma parse_unsigned_literal:
  assumes "parse_unsigned u \<noteq> NaN"
  shows "str_unsigned u"
proof (cases "u = ''Infinity''")
  case True
  then show ?thesis by (simp add: infinity)
next
  case False
  then have p: "parse_decimal u \<noteq> NaN" using assms by (simp add: parse_unsigned_def)
  obtain ip r1 where u: "u = ip @ r1" and ip: "list_all is_digit ip"
    and r1: "r1 = [] \<or> \<not> is_digit (hd r1)"
    by (rule digits_split)
  show ?thesis
  proof (cases "r1 = [] \<or> hd r1 \<noteq> CHR ''.''")
    case True
    then have "ip \<noteq> [] \<and> parse_exponent r1 \<noteq> None"
      using parse_decimal_whole [OF ip r1] p unfolding u by blast
    then have "decimal_digits ip" "r1 = [] \<or> exponent_part r1"
      using ip exponent_part_tail [OF r1] by (simp_all add: decimal_digits_def)
    then show ?thesis unfolding u by (rule whole)
  next
    case False
    then obtain r where r: "r1 = CHR ''.'' # r" by (cases r1) auto
    obtain fp r2 where q: "r = fp @ r2" and fp: "list_all is_digit fp"
      and r2: "r2 = [] \<or> \<not> is_digit (hd r2)"
      by (rule digits_split)
    have "(ip \<noteq> [] \<or> fp \<noteq> []) \<and> parse_exponent r2 \<noteq> None"
      using parse_decimal_fraction [OF ip fp r2] p unfolding u r q by blast
    then have n: "ip \<noteq> [] \<or> fp \<noteq> []" and e: "r2 = [] \<or> exponent_part r2"
      using exponent_part_tail [OF r2] by blast+
    show ?thesis
    proof (cases "ip = []")
      case True
      then have "decimal_digits fp" using n fp by (simp add: decimal_digits_def)
      then have "str_unsigned (CHR ''.'' # fp @ r2)" using e by (rule fraction)
      then show ?thesis unfolding u r q True by simp
    next
      case False
      then have "decimal_digits ip" "fp = [] \<or> decimal_digits fp"
        using ip fp by (auto simp: decimal_digits_def)
      then show ?thesis unfolding u r q using e by (rule point)
    qed
  qed
qed

lemma hex_val_binary: "(case hex_val c of None \<Rightarrow> False | Some v \<Rightarrow> v < 2) \<longleftrightarrow> c \<in> set ''01''"
  by (auto simp: hex_val_def is_digit_def digit_val_def split: if_splits)

lemma hex_val_octal:
  "(case hex_val c of None \<Rightarrow> False | Some v \<Rightarrow> v < 8) \<longleftrightarrow> c \<in> set ''01234567''"
  by (auto simp: hex_val_def is_digit_def digit_val_def split: if_splits)

lemma hex_val_hex:
  "(case hex_val c of None \<Rightarrow> False | Some v \<Rightarrow> v < 16) \<longleftrightarrow> c \<in> set ''0123456789abcdefABCDEF''"
  by (auto simp: hex_val_def is_digit_def digit_val_def split: if_splits)

lemma radix_digits_alphabet:
  "radix_digits 2 ds \<noteq> None \<longleftrightarrow> ds \<noteq> [] \<and> set ds \<subseteq> set ''01''"
  "radix_digits 8 ds \<noteq> None \<longleftrightarrow> ds \<noteq> [] \<and> set ds \<subseteq> set ''01234567''"
  "radix_digits 16 ds \<noteq> None \<longleftrightarrow> ds \<noteq> [] \<and> set ds \<subseteq> set ''0123456789abcdefABCDEF''"
  unfolding radix_digits_def list_all_iff hex_val_binary hex_val_octal hex_val_hex subset_eq
  by simp_all

lemma non_decimal_literal_parse: "non_decimal_literal t \<longleftrightarrow> parse_nondecimal t \<noteq> None"
proof
  assume "non_decimal_literal t"
  then show "parse_nondecimal t \<noteq> None"
  proof cases
    case (binary x ds)
    then have "radix_digits 2 ds \<noteq> None" "x = CHR ''b'' \<or> x = CHR ''B''"
      using radix_digits_alphabet(1) [of ds] by auto
    then show ?thesis unfolding binary(1) by (auto simp: parse_nondecimal_def)
  next
    case (octal x ds)
    then have "radix_digits 8 ds \<noteq> None" "x = CHR ''o'' \<or> x = CHR ''O''"
      using radix_digits_alphabet(2) [of ds] by auto
    then show ?thesis unfolding octal(1) by (auto simp: parse_nondecimal_def)
  next
    case (hex x ds)
    then have "radix_digits 16 ds \<noteq> None" "x = CHR ''x'' \<or> x = CHR ''X''"
      using radix_digits_alphabet(3) [of ds] by auto
    then show ?thesis unfolding hex(1) by (auto simp: parse_nondecimal_def)
  qed
next
  assume a: "parse_nondecimal t \<noteq> None"
  then obtain x ds where t: "t = CHR ''0'' # x # ds"
    by (cases t; cases "tl t") (auto simp: parse_nondecimal_def split: if_splits)
  consider "x = CHR ''x'' \<or> x = CHR ''X''" "radix_digits 16 ds \<noteq> None"
    | "x = CHR ''o'' \<or> x = CHR ''O''" "radix_digits 8 ds \<noteq> None"
    | "x = CHR ''b'' \<or> x = CHR ''B''" "radix_digits 2 ds \<noteq> None"
    using a unfolding t by (auto simp: parse_nondecimal_def split: if_splits)
  then show "non_decimal_literal t"
  proof cases
    case 1
    then show ?thesis unfolding t using radix_digits_alphabet(3) [of ds]
      by (intro hex) auto
  next
    case 2
    then show ?thesis unfolding t using radix_digits_alphabet(2) [of ds]
      by (intro octal) auto
  next
    case 3
    then show ?thesis unfolding t using radix_digits_alphabet(1) [of ds]
      by (intro binary) auto
  qed
qed

lemma neg_nan: "neg x = NaN \<longleftrightarrow> x = NaN"
  by (cases x) simp_all

lemma string_to_number_numeric: "string_to_number a \<noteq> NaN \<longleftrightarrow> numeric_text (trim a)"
proof
  assume a: "string_to_number a \<noteq> NaN"
  show "numeric_text (trim a)"
  proof (cases "trim a = []")
    case True
    then show ?thesis by (simp add: blank)
  next
    case False
    then obtain c r where t: "trim a = c # r" by (cases "trim a") auto
    show ?thesis
    proof (cases "parse_nondecimal (trim a)")
      case (Some n)
      then show ?thesis using non_decimal_literal_parse [of "trim a"] by (simp add: non_decimal)
    next
      case None
      consider "c = CHR ''+''" "parse_unsigned r \<noteq> NaN"
        | "c = CHR ''-''" "parse_unsigned r \<noteq> NaN"
        | "parse_unsigned (trim a) \<noteq> NaN"
        using a None unfolding string_to_number_def Let_def t
        by (auto simp: neg_nan split: if_splits)
      then show ?thesis
      proof cases
        case 1
        then show ?thesis unfolding t using parse_unsigned_literal [of r] by (simp add: plus)
      next
        case 2
        then show ?thesis unfolding t using parse_unsigned_literal [of r] by (simp add: minus)
      next
        case 3
        then show ?thesis using parse_unsigned_literal [of "trim a"] by (simp add: unsigned)
      qed
    qed
  qed
next
  assume "numeric_text (trim a)"
  then show "string_to_number a \<noteq> NaN"
  proof cases
    case blank
    then show ?thesis by (simp add: string_to_number_def)
  next
    case unsigned
    note s = str_unsigned_shape [OF unsigned]
    show ?thesis unfolding string_to_number_def Let_def using s by simp
  next
    case (plus u)
    note s = str_unsigned_shape [OF plus(2)]
    have "parse_nondecimal (CHR ''+'' # u) = None"
      by (auto simp: parse_nondecimal_def split: list.splits)
    then show ?thesis unfolding string_to_number_def Let_def plus(1) using s(5) by simp
  next
    case (minus u)
    note s = str_unsigned_shape [OF minus(2)]
    have "parse_nondecimal (CHR ''-'' # u) = None"
      by (auto simp: parse_nondecimal_def split: list.splits)
    then show ?thesis unfolding string_to_number_def Let_def minus(1) using s(5)
      by (simp add: neg_nan)
  next
    case non_decimal
    then obtain n where "parse_nondecimal (trim a) = Some n"
      using non_decimal_literal_parse [of "trim a"] by auto
    moreover have "trim a \<noteq> []" using non_decimal by (auto elim: non_decimal_literal.cases)
    ultimately show ?thesis unfolding string_to_number_def Let_def by simp
  qed
qed

text \<open>
  Claim C6. Every line is the join of comma-free fields, and decoding reads them by
  position: the first is the identifier, then date, category, payee, amount and notes; a
  seventh and later field is ignored; a field past the end of the line is \<open>undefined\<close>,
  except that a missing amount gives not-a-number and missing notes give the empty
  string. The amount is the number of the fifth field, and that is not-a-number exactly
  when the text, white space at its ends set aside, is not a numeric literal: so it is
  for a text that begins with a character that no numeric literal begins with, and so it
  is for a number followed by anything else, as in \<open>12abc\<close>, \<open>1.2.3\<close> and \<open>--5\<close>.
\<close>

theorem parseCsvLine_positional:
  "(\<exists>fs. fs \<noteq> [] \<and> (\<forall>f\<in>set fs. comma \<notin> set f) \<and> line = join comma fs)
   \<and> (fs \<noteq> [] \<and> (\<forall>f\<in>set fs. comma \<notin> set f) \<longrightarrow>
        parseCsvLine (join comma fs) =
          \<lparr> rec_id = Str (hd fs), date = field fs 1, category = field fs 2,
            payee = field fs 3,
            amount = Num (if 4 < length fs then string_to_number (fs ! 4) else NaN),
            rec_notes = (if 5 < length fs then Str (fs ! 5) else Str []) \<rparr>)
   \<and> ((\<forall>f\<in>set (f0 # f1 # f2 # f3 # f4 # f5 # extra). comma \<notin> set f) \<longrightarrow>
        parseCsvLine (join comma (f0 # f1 # f2 # f3 # f4 # f5 # extra)) =
          \<lparr> rec_id = Str f0, date = Str f1, category = Str f2, payee = Str f3,
            amount = Num (string_to_number f4), rec_notes = Str f5 \<rparr>)
   \<and> field fs i = (if i < length fs then Str (fs ! i) else Undefined)
   \<and> (trim a = c # r \<and> \<not> is_digit c \<and> c \<notin> set ''+-.I'' \<longrightarrow> string_to_number a = NaN)
   \<and> (string_to_number b = NaN \<longleftrightarrow> \<not> numeric_text (trim b))"
proof (intro conjI impI)
  show "\<exists>fs. fs \<noteq> [] \<and> (\<forall>f\<in>set fs. comma \<notin> set f) \<and> line = join comma fs"
    using split_pieces [of _ comma line]
    by (intro exI [of _ "split comma line"]) (auto simp: join_split)
next
  assume a: "fs \<noteq> [] \<and> (\<forall>f\<in>set fs. comma \<notin> set f)"
  then have "field fs 0 = Str (hd fs)"
    by (cases fs) (auto simp: field_def)
  then show "parseCsvLine (join comma fs) =
          \<lparr> rec_id = Str (hd fs), date = field fs 1, category = field fs 2,
            payee = field fs 3,
            amount = Num (if 4 < length fs then string_to_number (fs ! 4) else NaN),
            rec_notes = (if 5 < length fs then Str (fs ! 5) else Str []) \<rparr>"
    using parseCsvLine_join [of fs] a by simp
next
  assume "\<forall>f\<in>set (f0 # f1 # f2 # f3 # f4 # f5 # extra). comma \<notin> set f"
  then show "parseCsvLine (join comma (f0 # f1 # f2 # f3 # f4 # f5 # extra)) =
          \<lparr> rec_id = Str f0, date = Str f1, category = Str f2, payee = Str f3,
            amount = Num (string_to_number f4), rec_notes = Str f5 \<rparr>"
    by (subst parseCsvLine_join) (simp_all add: field_def)
next
  show "field fs i = (if i < length fs then Str (fs ! i) else Undefined)"
    by (simp add: field_def)
next
  assume "trim a = c # r \<and> \<not> is_digit c \<and> c \<notin> set ''+-.I''"
  then show "string_to_number a = NaN"
    using string_to_number_non_numeric by blast
next
  show "string_to_number b = NaN \<longleftrightarrow> \<not> numeric_text (trim b)"
    using string_to_number_numeric [of b] by blast
qed

theorem parseCsvLine_positional_witness:
  "parseCsvLine ''123,2025-10-02,Groceries,Trader Joes,-42.18,Bought food,more'' =
     \<lparr> rec_id = Str ''123'', date = Str ''2025-10-02'', category = Str ''Groceries'',
       payee = Str ''Trader Joes'', amount = Num (Fin (- 4218) (- 2)),
       rec_notes = Str ''Bought food'' \<rparr>
   \<and> parseCsvLine ''7,2025-10-03,Food'' =
     \<lparr> rec_id = Str ''7'', date = Str ''2025-10-03'', category = Str ''Food'',
       payee = Undefined, amount = Num NaN, rec_notes = Str [] \<rparr>
   \<and> string_to_number ''abc'' = NaN
   \<and> string_to_number ''12abc'' = NaN \<and> \<not> numeric_text ''12abc''
   \<and> string_to_number ''1.2.3'' = NaN \<and> \<not> numeric_text ''1.2.3''
   \<and> string_to_number ''--5'' = NaN \<and> \<not> numeric_text ''--5''
   \<and> string_to_number ''1e'' = NaN \<and> \<not> numeric_text ''1e''
   \<and> string_to_number ''0x1G'' = NaN \<and> \<not> numeric_text ''0x1G''
   \<and> string_to_number ''-42.18'' = Fin (- 4218) (- 2) \<and> numeric_text ''-42.18''
   \<and> string_to_number '' 1E-2 '' = Fin 1 (- 2) \<and> numeric_text ''1E-2''
   \<and> string_to_number ''.5e3'' = Fin 5 2 \<and> numeric_text ''.5e3''
   \<and> string_to_number ''0x1F'' = Fin 31 0 \<and> numeric_text ''0x1F''
   \<and> string_to_number ''-Infinity'' = NegInf \<and> numeric_text ''-Infinity''
   \<and> parseCsvLine ''8,2025-10-04,Food,Cafe,12abc,tip'' =
     \<lparr> rec_id = Str ''8'', date = Str ''2025-10-04'', category = Str ''Food'',
       payee = Str ''Cafe'', amount = Num NaN, rec_notes = Str ''tip'' \<rparr>"
proof -
  note t = parseCsvLine_positional [of "''a''" "[''7'', ''2025-10-03'', ''Food'']"
      "''123''" "''2025-10-02''" "''Groceries''" "''Trader Joes''" "''-42.18''"
      "''Bought food''" "[''more'']" 0 "''abc''" "CHR ''a''" "''bc''" "''12abc''"]
  note u = parseCsvLine_positional [of "''a''" "[''7'']"
      "''8''" "''2025-10-04''" "''Food''" "''Cafe''" "''12abc''" "''tip''" "[]" 0 "''abc''"
      "CHR ''a''" "''bc''"]
  have n: "string_to_number ''-42.18'' = Fin (- 4218) (- 2)"
      "string_to_number '' 1E-2 '' = Fin 1 (- 2)"
      "string_to_number ''.5e3'' = Fin 5 2"
      "string_to_number ''0x1F'' = Fin 31 0"
      "string_to_number ''-Infinity'' = NegInf"
      "string_to_number ''12abc'' = NaN"
      "string_to_number ''1.2.3'' = NaN"
      "string_to_number ''--5'' = NaN"
      "string_to_number ''1e'' = NaN"
      "string_to_number ''0x1G'' = NaN"
    by (simp_all add: number_defs hex_val_def radix_digits_def)
  have w: "trim ''12abc'' = ''12abc''" "trim ''1.2.3'' = ''1.2.3''" "trim ''--5'' = ''--5''"
      "trim ''1e'' = ''1e''" "trim ''0x1G'' = ''0x1G''" "trim ''-42.18'' = ''-42.18''"
      "trim '' 1E-2 '' = ''1E-2''" "trim ''.5e3'' = ''.5e3''" "trim ''0x1F'' = ''0x1F''"
      "trim ''-Infinity'' = ''-Infinity''"
    by (simp_all add: trim_def is_ws_def)
  have 1: "parseCsvLine ''123,2025-10-02,Groceries,Trader Joes,-42.18,Bought food,more'' =
     \<lparr> rec_id = Str ''123'', date = Str ''2025-10-02'', category = Str ''Groceries'',
       payee = Str ''Trader Joes'', amount = Num (Fin (- 4218) (- 2)),
       rec_notes = Str ''Bought food'' \<rparr>"
    using t n(1) by (simp add: comma_def)
  have 2: "parseCsvLine ''7,2025-10-03,Food'' =
     \<lparr> rec_id = Str ''7'', date = Str ''2025-10-03'', category = Str ''Food'',
       payee = Undefined, amount = Num NaN, rec_notes = Str [] \<rparr>"
    using t by (simp add: comma_def field_def)
  have 3: "string_to_number ''abc'' = NaN"
    using t by (simp add: trim_def is_ws_def is_digit_def)
  have 4: "parseCsvLine ''8,2025-10-04,Food,Cafe,12abc,tip'' =
     \<lparr> rec_id = Str ''8'', date = Str ''2025-10-04'', category = Str ''Food'',
       payee = Str ''Cafe'', amount = Num NaN, rec_notes = Str ''tip'' \<rparr>"
    using u n(6) by (simp add: comma_def)
  have k: "string_to_number b = NaN \<longleftrightarrow> \<not> numeric_text (trim b)" for b
    using parseCsvLine_positional [of "''a''" "[''7'']" "''8''" "''2025-10-04''" "''Food''"
        "''Cafe''" "''12abc''" "''tip''" "[]" 0 "''abc''" "CHR ''a''" "''bc''" b]
    by blast
  have 5: "\<not> numeric_text ''12abc''" "\<not> numeric_text ''1.2.3''" "\<not> numeric_text ''--5''"
      "\<not> numeric_text ''1e''" "\<not> numeric_text ''0x1G''"
    using k [of "''12abc''"] k [of "''1.2.3''"] k [of "''--5''"] k [of "''1e''"]
      k [of "''0x1G''"] n(6-10)
    unfolding w by blast+
  have 6: "numeric_text ''-42.18''" "numeric_text ''1E-2''" "numeric_text ''.5e3''"
      "numeric_text ''0x1F''" "numeric_text ''-Infinity''"
    using k [of "''-42.18''"] k [of "'' 1E-2 ''"] k [of "''.5e3''"] k [of "''0x1F''"]
      k [of "''-Infinity''"] n(1-5)
    unfolding w by simp_all
  show ?thesis using 1 2 3 4 5 6 n by blast
qed

section \<open>Loading the file\<close>

lemma ws_newline [simp]: "is_ws newline"
  by (simp add: is_ws_def newline_def)

lemma trim_line:
  assumes "b \<noteq> []" "\<not> is_ws (last b)"
  shows "trim (b @ [newline]) = dropWhile is_ws b"
proof -
  have m: "last b \<in> set b" using assms(1) by simp
  have 1: "dropWhile is_ws (b @ [newline]) = dropWhile is_ws b @ [newline]"
    using m assms(2) by (meson dropWhile_append1)
  have 2: "dropWhile is_ws b \<noteq> []"
    using m assms(2) by (auto simp: dropWhile_eq_Nil_conv)
  then have "last (dropWhile is_ws b) = last b"
    by (metis append_Nil2 last_appendR takeWhile_dropWhile_id)
  then have 3: "\<not> is_ws (hd (rev (dropWhile is_ws b)))"
    using 2 assms(2) by (simp add: hd_rev)
  have "rev (dropWhile is_ws b) \<noteq> []" using 2 by simp
  then have "dropWhile is_ws (rev (dropWhile is_ws b)) = rev (dropWhile is_ws b)"
    using 3 by (cases "rev (dropWhile is_ws b)") auto
  then show ?thesis unfolding trim_def 1 by simp
qed

lemma trim_clean:
  assumes "b \<noteq> []" "\<not> is_ws (hd b)" "\<not> is_ws (last b)"
  shows "trim b = b"
proof -
  have 1: "dropWhile is_ws b = b" using assms(1,2) by (cases b) auto
  have "rev b \<noteq> []" "\<not> is_ws (hd (rev b))" using assms by (simp_all add: hd_rev)
  then have "dropWhile is_ws (rev b) = rev b" by (cases "rev b") auto
  then show ?thesis unfolding trim_def 1 by simp
qed

lemma loadAll_file:
  "loadAll (File c) =
     Inr (map parseCsvLine (filter (\<lambda>l. l \<noteq> []) (tl (split newline (trim c)))), File c)"
  by (simp add: loadAll_def bind_def Let_def)

lemma rows_terminated:
  "filter (\<lambda>l. l \<noteq> []) (tl (split d (b @ [d]))) = filter (\<lambda>l. l \<noteq> []) (tl (split d b))"
proof -
  have "split d (b @ [d]) = split d b @ [[]]"
    using split_app [of d b "[]"] by simp
  then show ?thesis by simp
qed

lemma loadAll_spec_agrees:
  assumes "b \<noteq> []" "\<not> is_ws (hd b)" "\<not> is_ws (last b)"
  shows "loadAll (File (b @ [newline])) = Inr (loadAll_spec (b @ [newline]), File (b @ [newline]))"
proof -
  have "trim (b @ [newline]) = b"
    using trim_line [OF assms(1,3)] assms(1,2) by (cases b) auto
  then show ?thesis
    by (simp add: loadAll_file loadAll_spec_def rows_terminated)
qed

lemmas load_defs =
  loadAll_def loadAll_spec_def bind_def Let_def header_def trim_def is_ws_def newline_def
  parseCsvLine_def comma_def field_def nullish_or_def

text \<open>
  Claim C8, as stated, fails: \<open>loadAll\<close> trims the white space around the whole text
  before it splits it into lines. In a file whose last line ends in a space, the notes
  of the last record are loaded without that space, while decoding the line as it
  stands in the file keeps it.
\<close>

theorem loadAll_trims_counterexample:
  "loadAll (File (header @ ''1,2025-01-01,Food,Shop,5,ok '' @ [newline]))
     = Inr ([\<lparr> rec_id = Str ''1'', date = Str ''2025-01-01'', category = Str ''Food'',
               payee = Str ''Shop'', amount = Num (Fin 5 0), rec_notes = Str ''ok'' \<rparr>],
            File (header @ ''1,2025-01-01,Food,Shop,5,ok '' @ [newline]))
   \<and> loadAll_spec (header @ ''1,2025-01-01,Food,Shop,5,ok '' @ [newline])
     = [\<lparr> rec_id = Str ''1'', date = Str ''2025-01-01'', category = Str ''Food'',
          payee = Str ''Shop'', amount = Num (Fin 5 0), rec_notes = Str ''ok '' \<rparr>]
   \<and> loadAll (File (header @ ''1,2025-01-01,Food,Shop,5,ok '' @ [newline]))
     \<noteq> Inr (loadAll_spec (header @ ''1,2025-01-01,Food,Shop,5,ok '' @ [newline]),
            File (header @ ''1,2025-01-01,Food,Shop,5,ok '' @ [newline]))"
proof -
  have n: "string_to_number ''5'' = Fin 5 0"
    by (simp add: number_defs)
  have 1: "loadAll (File (header @ ''1,2025-01-01,Food,Shop,5,ok '' @ [newline]))
     = Inr ([\<lparr> rec_id = Str ''1'', date = Str ''2025-01-01'', category = Str ''Food'',
               payee = Str ''Shop'', amount = Num (Fin 5 0), rec_notes = Str ''ok'' \<rparr>],
            File (header @ ''1,2025-01-01,Food,Shop,5,ok '' @ [newline]))"
    by (simp add: load_defs n)
  have 2: "loadAll_spec (header @ ''1,2025-01-01,Food,Shop,5,ok '' @ [newline])
     = [\<lparr> rec_id = Str ''1'', date = Str ''2025-01-01'', category = Str ''Food'',
          payee = Str ''Shop'', amount = Num (Fin 5 0), rec_notes = Str ''ok '' \<rparr>]"
    by (simp add: load_defs n)
  show ?thesis
    unfolding 1 2 by simp
qed

text \<open>
  Claim C8, amended. Against a missing data directory \<open>ensureCsv\<close> leaves the directory
  and a file that holds the header row only, \<open>loadAll\<close> returns no record, and the list
  after the start is empty. For every file, \<open>loadAll\<close> strips the white space around
  the whole text, discards the first line and the empty lines of what is left, and
  decodes each remaining line in order. For a text that begins and ends with a
  character other than white space, followed by one newline, these are the lines of the
  file after the first, less the empty ones.
\<close>

theorem loadAll_trimmed_rows:
  "ensureCsv NoDir = Inr (File header)
   \<and> loadAll NoDir = Inr ([], File header)
   \<and> startup NoDir = Inr \<lparr> transactions = [], disk = File header \<rparr>
   \<and> list_transactions \<lparr> transactions = [], disk = File header \<rparr>
       = (Listing [], \<lparr> transactions = [], disk = File header \<rparr>)
   \<and> loadAll (File c) =
       Inr (map parseCsvLine (filter (\<lambda>l. l \<noteq> []) (tl (split newline (trim c)))), File c)
   \<and> (b \<noteq> [] \<and> \<not> is_ws (hd b) \<and> \<not> is_ws (last b) \<longrightarrow>
        loadAll (File (b @ [newline]))
          = Inr (loadAll_spec (b @ [newline]), File (b @ [newline])))"
proof (intro conjI impI)
  show "ensureCsv NoDir = Inr (File header)" by simp
  show "loadAll NoDir = Inr ([], File header)"
    by (simp add: load_defs)
  show "startup NoDir = Inr \<lparr> transactions = [], disk = File header \<rparr>"
    by (rule startup_fresh)
  show "list_transactions \<lparr> transactions = [], disk = File header \<rparr>
       = (Listing [], \<lparr> transactions = [], disk = File header \<rparr>)"
    by (simp add: list_transactions_def)
  show "loadAll (File c) =
       Inr (map parseCsvLine (filter (\<lambda>l. l \<noteq> []) (tl (split newline (trim c)))), File c)"
    by (rule loadAll_file)
next
  assume "b \<noteq> [] \<and> \<not> is_ws (hd b) \<and> \<not> is_ws (last b)"
  then show "loadAll (File (b @ [newline]))
          = Inr (loadAll_spec (b @ [newline]), File (b @ [newline]))"
    using loadAll_spec_agrees by blast
qed

theorem loadAll_trimmed_rows_witness:
  "loadAll (File (''id,date,category,payee,amount,notes'' @ [newline] @ [newline]
                  @ ''1,2025-01-01,Food,Shop,5,ok'' @ [newline]))
     = Inr (loadAll_spec (''id,date,category,payee,amount,notes'' @ [newline] @ [newline]
                  @ ''1,2025-01-01,Food,Shop,5,ok'' @ [newline]),
            File (''id,date,category,payee,amount,notes'' @ [newline] @ [newline]
                  @ ''1,2025-01-01,Food,Shop,5,ok'' @ [newline]))
   \<and> loadAll_spec (''id,date,category,payee,amount,notes'' @ [newline] @ [newline]
                  @ ''1,2025-01-01,Food,Shop,5,ok'' @ [newline])
     = [\<lparr> rec_id = Str ''1'', date = Str ''2025-01-01'', category = Str ''Food'',
          payee = Str ''Shop'', amount = Num (Fin 5 0), rec_notes = Str ''ok'' \<rparr>]"
proof -
  let ?b = "''id,date,category,payee,amount,notes'' @ [newline] @ [newline]
                  @ ''1,2025-01-01,Food,Shop,5,ok''"
  have h: "?b \<noteq> [] \<and> \<not> is_ws (hd ?b) \<and> \<not> is_ws (last ?b)"
    by (simp add: is_ws_def)
  have n: "string_to_number ''5'' = Fin 5 0"
    by (simp add: number_defs)
  have 2: "loadAll_spec (?b @ [newline])
     = [\<lparr> rec_id = Str ''1'', date = Str ''2025-01-01'', category = Str ''Food'',
          payee = Str ''Shop'', amount = Num (Fin 5 0), rec_notes = Str ''ok'' \<rparr>]"
    by (simp add: load_defs n)
  from loadAll_trimmed_rows [of "[]" ?b] h 2 show ?thesis
    by simp
qed

section \<open>Numbers and their text\<close>

lemma digit_char_is_digit [simp]: "is_digit (digit_char d)"
proof -
  have "d mod 10 \<in> {0,1,2,3,4,5,6,7,8,9}" by (simp; presburger)
  then show ?thesis unfolding digit_char_def is_digit_def by auto
qed

lemma digit_val_char [simp]: "d < 10 \<Longrightarrow> digit_val (digit_char d) = d"
proof -
  assume "d < 10"
  then have "d \<in> {0,1,2,3,4,5,6,7,8,9}" by auto
  then show ?thesis by (auto simp: digit_val_def digit_char_def)
qed

lemma digit_val_zero [simp]: "digit_val (CHR ''0'') = 0"
  by (simp add: digit_val_def)

lemma is_digit_zero [simp]: "is_digit (CHR ''0'')"
  by (simp add: is_digit_def)

lemma digit_char_zero: "d < 10 \<Longrightarrow> digit_char d = CHR ''0'' \<longleftrightarrow> d = 0"
proof -
  assume "d < 10"
  then have "d \<in> {0,1,2,3,4,5,6,7,8,9}" by auto
  then show ?thesis by (auto simp: digit_char_def)
qed

lemma digits_of_digits: "list_all is_digit (digits_of n)"
  by (induction n rule: digits_of.induct) (subst digits_of.simps, simp)

lemma digits_of_nonempty [simp]: "digits_of n \<noteq> []"
  by (subst digits_of.simps) simp

lemma nat_of_digits_snoc: "nat_of_digits (ds @ [c]) = 10 * nat_of_digits ds + digit_val c"
  by (simp add: nat_of_digits_def)

lemma nat_of_digits_Nil [simp]: "nat_of_digits [] = 0"
  by (simp add: nat_of_digits_def)

lemma nat_of_digits_of [simp]: "nat_of_digits (digits_of n) = n"
proof (induction n rule: digits_of.induct)
  case (1 n)
  show ?case
  proof (cases "n < 10")
    case True
    then show ?thesis by (subst digits_of.simps) (simp add: nat_of_digits_def)
  next
    case False
    then show ?thesis using 1 by (subst digits_of.simps) (simp add: nat_of_digits_snoc)
  qed
qed

lemma nat_of_digits_append:
  "nat_of_digits (xs @ ys) = nat_of_digits xs * 10 ^ length ys + nat_of_digits ys"
proof (induction ys rule: rev_induct)
  case Nil
  then show ?case by simp
next
  case (snoc y ys)
  have "nat_of_digits (xs @ ys @ [y]) = 10 * nat_of_digits (xs @ ys) + digit_val y"
    using nat_of_digits_snoc [of "xs @ ys" y] by simp
  then show ?case using snoc by (simp add: nat_of_digits_snoc algebra_simps)
qed

lemma nat_of_digits_zeros [simp]: "nat_of_digits (replicate k (CHR ''0'')) = 0"
  by (induction k) (simp_all add: nat_of_digits_append [of "[CHR ''0'']", simplified] nat_of_digits_def)

lemma hd_digits_of: "0 < n \<Longrightarrow> hd (digits_of n) \<noteq> CHR ''0''"
proof (induction n rule: digits_of.induct)
  case (1 n)
  show ?case
  proof (cases "n < 10")
    case True
    then show ?thesis using 1(2) by (subst digits_of.simps) (simp add: digit_char_zero)
  next
    case False
    then have "0 < n div 10" by simp
    then show ?thesis using 1(1) False by (subst digits_of.simps) simp
  qed
qed

lemma num_eq_common:
  assumes "m1 * 10 ^ a = m2 * 10 ^ b" "e1 - int a = e2 - int b"
  shows "num_eq (Fin m1 e1) (Fin m2 e2)"
proof -
  define c where "c = min e1 e2"
  define d where "d = nat (c - (e1 - int a))"
  have a: "a = nat (e1 - c) + d" and b: "b = nat (e2 - c) + d"
    using assms(2) by (auto simp: c_def d_def)
  have "m1 * 10 ^ nat (e1 - c) * 10 ^ d = m2 * 10 ^ nat (e2 - c) * 10 ^ d"
    using assms(1) unfolding a b by (simp add: power_add mult.assoc)
  then have "m1 * 10 ^ nat (e1 - c) = m2 * 10 ^ nat (e2 - c)"
    by simp
  then show ?thesis by (simp add: c_def)
qed

lemma num_eq_shift: "num_eq (Fin s (e + int z)) (Fin (s * 10 ^ z) e)"
  by (rule num_eq_common [where a = z and b = 0]) simp_all

lemma num_eq_int:
  assumes "0 \<le> e + int z"
  shows "num_eq (Fin (s * 10 ^ nat (e + int z)) 0) (Fin (s * 10 ^ z) e)"
proof (cases "0 \<le> e")
  case True
  show ?thesis
    by (rule num_eq_common [where a = 0 and b = "nat e"])
      (use True in \<open>simp_all add: nat_add_distrib power_add\<close>)
next
  case False
  have "z = nat (e + int z) + nat (- e)" using False assms by simp
  then have "(10::int) ^ z = 10 ^ nat (e + int z) * 10 ^ nat (- e)"
    by (metis power_add)
  then show ?thesis
    by (intro num_eq_common [where a = "nat (- e)" and b = 0])
      (use False in \<open>simp_all\<close>)
qed

lemma not_digit_point [simp]: "\<not> is_digit (CHR ''.'')" "\<not> is_digit (CHR ''e'')"
  "\<not> is_digit (CHR ''+'')" "\<not> is_digit (CHR ''-'')"
  by (simp_all add: is_digit_def)

lemma parse_exponent_signed:
  assumes "xs \<noteq> []" "list_all is_digit xs"
  shows "parse_exponent (CHR ''e'' # CHR ''+'' # xs) = Some (int (nat_of_digits xs))"
    and "parse_exponent (CHR ''e'' # CHR ''-'' # xs) = Some (- int (nat_of_digits xs))"
  using assms by (simp_all add: parse_exponent_def)

lemma parse_decimal_int:
  assumes "list_all is_digit ip" "ip \<noteq> []"
  shows "parse_decimal ip = Fin (int (nat_of_digits ip)) 0"
proof -
  have t: "takeWhile is_digit ip = ip" and d: "dropWhile is_digit ip = []"
    using takeWhile_digits [of ip "[]"] dropWhile_digits [of ip "[]"] assms(1) by simp_all
  show ?thesis unfolding parse_decimal_def t d using assms(2)
    by (simp add: parse_exponent_def)
qed

lemma parse_decimal_point:
  assumes "list_all is_digit ip" "list_all is_digit fp" "ip \<noteq> []"
  shows "parse_decimal (ip @ CHR ''.'' # fp) =
           Fin (int (nat_of_digits (ip @ fp))) (- int (length fp))"
proof -
  have t: "takeWhile is_digit (ip @ CHR ''.'' # fp) = ip"
    and d: "dropWhile is_digit (ip @ CHR ''.'' # fp) = CHR ''.'' # fp"
    using takeWhile_digits [of ip "CHR ''.'' # fp"] dropWhile_digits [of ip "CHR ''.'' # fp"]
      assms(1) by simp_all
  have t2: "takeWhile is_digit fp = fp" and d2: "dropWhile is_digit fp = []"
    using takeWhile_digits [of fp "[]"] dropWhile_digits [of fp "[]"] assms(2) by simp_all
  show ?thesis unfolding parse_decimal_def t d using assms(3)
    by (simp add: t2 d2 parse_exponent_def del: takeWhile_eq_all_conv dropWhile_eq_Nil_conv)
qed

lemma parse_decimal_exp:
  assumes "list_all is_digit ip" "list_all is_digit fp" "ip \<noteq> []"
    "parse_exponent (CHR ''e'' # ex) = Some x"
  shows "parse_decimal (ip @ CHR ''.'' # fp @ CHR ''e'' # ex) =
           Fin (int (nat_of_digits (ip @ fp))) (x - int (length fp))"
    and "parse_decimal (ip @ CHR ''e'' # ex) = Fin (int (nat_of_digits ip)) x"
proof -
  have t: "takeWhile is_digit (ip @ CHR ''.'' # fp @ CHR ''e'' # ex) = ip"
    and d: "dropWhile is_digit (ip @ CHR ''.'' # fp @ CHR ''e'' # ex)
              = CHR ''.'' # fp @ CHR ''e'' # ex"
    using takeWhile_digits [of ip "CHR ''.'' # fp @ CHR ''e'' # ex"]
      dropWhile_digits [of ip "CHR ''.'' # fp @ CHR ''e'' # ex"] assms(1) by simp_all
  have t2: "takeWhile is_digit (fp @ CHR ''e'' # ex) = fp"
    and d2: "dropWhile is_digit (fp @ CHR ''e'' # ex) = CHR ''e'' # ex"
    using takeWhile_digits [of fp "CHR ''e'' # ex"] dropWhile_digits [of fp "CHR ''e'' # ex"]
      assms(2) by simp_all
  show "parse_decimal (ip @ CHR ''.'' # fp @ CHR ''e'' # ex) =
           Fin (int (nat_of_digits (ip @ fp))) (x - int (length fp))"
    unfolding parse_decimal_def t d using assms(3,4)
    by (simp add: t2 d2)
  have t3: "takeWhile is_digit (ip @ CHR ''e'' # ex) = ip"
    and d3: "dropWhile is_digit (ip @ CHR ''e'' # ex) = CHR ''e'' # ex"
    using takeWhile_digits [of ip "CHR ''e'' # ex"] dropWhile_digits [of ip "CHR ''e'' # ex"]
      assms(1) by simp_all
  show "parse_decimal (ip @ CHR ''e'' # ex) = Fin (int (nat_of_digits ip)) x"
    unfolding parse_decimal_def t3 d3 using assms(3,4)
    by simp
qed

lemma takeWhile_replicate:
  "takeWhile (\<lambda>c. c = x) ys = replicate (length (takeWhile (\<lambda>c. c = x) ys)) x"
  by (induction ys) auto

lemma strip_zeros:
  fixes ds :: string
  defines "z \<equiv> length (takeWhile (\<lambda>c. c = CHR ''0'') (rev ds))"
  defines "sig \<equiv> take (length ds - z) ds"
  shows "ds = sig @ replicate z (CHR ''0'')"
proof -
  let ?P = "\<lambda>c. c = CHR ''0''"
  have t: "takeWhile ?P (rev ds) = replicate z (CHR ''0'')"
    unfolding z_def by (rule takeWhile_replicate)
  have "rev ds = takeWhile ?P (rev ds) @ dropWhile ?P (rev ds)" by simp
  then have "rev (rev ds) = rev (takeWhile ?P (rev ds) @ dropWhile ?P (rev ds))" by simp
  then have d: "ds = rev (dropWhile ?P (rev ds)) @ replicate z (CHR ''0'')"
    unfolding rev_append t by simp
  have "length (takeWhile ?P (rev ds)) + length (dropWhile ?P (rev ds)) = length (rev ds)"
    by (metis length_append takeWhile_dropWhile_id)
  then have l: "length (rev (dropWhile ?P (rev ds))) = length ds - z"
    unfolding z_def by simp
  have "take (length ds - z) ds = take (length ds - z) (rev (dropWhile ?P (rev ds)) @ replicate z (CHR ''0''))"
    using d by simp
  also have "\<dots> = rev (dropWhile ?P (rev ds))"
    using l by simp
  finally have "sig = rev (dropWhile ?P (rev ds))"
    unfolding sig_def .
  then show ?thesis using d by simp
qed

lemma strip_zeros_sig:
  fixes ds :: string
  assumes "ds \<noteq> []" "hd ds \<noteq> CHR ''0''"
  shows "take (length ds - length (takeWhile (\<lambda>c. c = CHR ''0'') (rev ds))) ds \<noteq> []"
proof
  assume e: "take (length ds - length (takeWhile (\<lambda>c. c = CHR ''0'') (rev ds))) ds = []"
  have "ds = replicate (length (takeWhile (\<lambda>c. c = CHR ''0'') (rev ds))) (CHR ''0'')"
    using strip_zeros [of ds] unfolding e by simp
  then have "hd ds = CHR ''0''"
    using assms(1) by (metis hd_replicate replicate_empty)
  then show False using assms(2) by simp
qed

lemma num_eq_iff:
  assumes "c \<le> e1" "c \<le> e2"
  shows "num_eq (Fin m1 e1) (Fin m2 e2) \<longleftrightarrow>
           m1 * 10 ^ nat (e1 - c) = m2 * 10 ^ nat (e2 - c)"
proof
  assume "m1 * 10 ^ nat (e1 - c) = m2 * 10 ^ nat (e2 - c)"
  then show "num_eq (Fin m1 e1) (Fin m2 e2)"
    by (rule num_eq_common) (use assms in simp)
next
  assume a: "num_eq (Fin m1 e1) (Fin m2 e2)"
  define m where "m = min e1 e2"
  have 1: "nat (e1 - c) = nat (e1 - m) + nat (m - c)"
    and 2: "nat (e2 - c) = nat (e2 - m) + nat (m - c)"
    using assms by (auto simp: m_def)
  have "m1 * 10 ^ nat (e1 - m) = m2 * 10 ^ nat (e2 - m)"
    using a by (simp add: m_def)
  then show "m1 * 10 ^ nat (e1 - c) = m2 * 10 ^ nat (e2 - c)"
    unfolding 1 2 power_add by (simp add: mult.assoc [symmetric])
qed

lemma num_eq_refl: "num_eq (Fin m e) (Fin m e)"
  by simp

lemma num_eq_sym: "num_eq a b \<Longrightarrow> num_eq b a"
  by (cases a; cases b) (auto simp: min.commute)

lemma num_eq_trans:
  assumes "num_eq a b" "num_eq b c"
  shows "num_eq a c"
proof (cases a)
  case (Fin m1 e1)
  then obtain m2 e2 where b: "b = Fin m2 e2" using assms(1) by (cases b) auto
  then obtain m3 e3 where c: "c = Fin m3 e3" using assms(2) by (cases c) auto
  define d where "d = min e1 (min e2 e3)"
  have "m1 * 10 ^ nat (e1 - d) = m2 * 10 ^ nat (e2 - d)"
    using assms(1) unfolding Fin b by (subst (asm) num_eq_iff [where c = d]) (auto simp: d_def)
  moreover have "m2 * 10 ^ nat (e2 - d) = m3 * 10 ^ nat (e3 - d)"
    using assms(2) unfolding b c by (subst (asm) num_eq_iff [where c = d]) (auto simp: d_def)
  ultimately have "m1 * 10 ^ nat (e1 - d) = m3 * 10 ^ nat (e3 - d)" by simp
  then show ?thesis unfolding Fin c
    by (subst num_eq_iff [where c = d]) (auto simp: d_def)
next
  case NaN
  then show ?thesis using assms by simp
next
  case PosInf
  then show ?thesis using assms by (cases b; cases c) auto
next
  case NegInf
  then show ?thesis using assms by (cases b; cases c) auto
qed

lemma layout_parse:
  assumes "sig \<noteq> []" "list_all is_digit sig"
  shows "\<exists>a x. parse_decimal (layout sig n) = Fin (int a) x
           \<and> num_eq (Fin (int a) x) (Fin (int (nat_of_digits sig)) (n - int (length sig)))"
proof -
  let ?k = "int (length sig)"
  let ?s = "nat_of_digits sig"
  consider (A) "?k \<le> n" "n \<le> 21"
    | (B) "n < ?k" "0 < n" "n \<le> 21"
    | (C) "- 6 < n" "n \<le> 0"
    | (D) "21 < n \<or> n \<le> - 6"
    by linarith
  then show ?thesis
  proof cases
    case A
    define j where "j = nat (n - ?k)"
    have l: "layout sig n = sig @ replicate j (CHR ''0'')"
      using A by (auto simp: layout_def Let_def j_def)
    have "parse_decimal (layout sig n) = Fin (int (?s * 10 ^ j)) 0"
      unfolding l using assms
      by (subst parse_decimal_int) (auto simp: nat_of_digits_append list_all_iff)
    moreover have "num_eq (Fin (int (?s * 10 ^ j)) 0) (Fin (int ?s) (n - ?k))"
      by (rule num_eq_common [where a = 0 and b = j]) (use A in \<open>simp_all add: j_def\<close>)
    ultimately show ?thesis by blast
  next
    case B
    have k: "0 < length sig" using assms(1) by simp
    have l: "layout sig n = take (nat n) sig @ CHR ''.'' # drop (nat n) sig"
      using B by (auto simp: layout_def Let_def)
    have "parse_decimal (layout sig n) = Fin (int ?s) (- int (length (drop (nat n) sig)))"
      unfolding l using assms B
      by (subst parse_decimal_point) (auto simp: list_all_iff dest: in_set_takeD in_set_dropD)
    moreover have "- int (length (drop (nat n) sig)) = n - ?k"
      using B by simp
    ultimately show ?thesis using num_eq_refl by (metis)
  next
    case C
    have "\<not> ?k \<le> n" using assms(1) C by (cases sig) auto
    then have l: "layout sig n = ''0'' @ CHR ''.'' # (replicate (nat (- n)) (CHR ''0'') @ sig)"
      using C by (auto simp: layout_def Let_def)
    have "parse_decimal (layout sig n)
            = Fin (int (nat_of_digits (''0'' @ replicate (nat (- n)) (CHR ''0'') @ sig)))
                (- int (length (replicate (nat (- n)) (CHR ''0'') @ sig)))"
      unfolding l using assms
      by (subst parse_decimal_point) (auto simp: list_all_iff)
    moreover have "nat_of_digits (''0'' @ replicate (nat (- n)) (CHR ''0'') @ sig) = ?s"
    proof -
      have "''0'' @ replicate (nat (- n)) (CHR ''0'') @ sig
              = replicate (Suc (nat (- n))) (CHR ''0'') @ sig"
        by simp
      then show ?thesis
        by (simp only: nat_of_digits_append nat_of_digits_zeros)
    qed
    moreover have "- int (length (replicate (nat (- n)) (CHR ''0'') @ sig)) = n - ?k"
      using C by simp
    ultimately show ?thesis using num_eq_refl by (metis)
  next
    case D
    define ex where "ex = (if n - 1 < 0 then CHR ''-'' else CHR ''+'') # digits_of (nat \<bar>n - 1\<bar>)"
    have pe: "parse_exponent (CHR ''e'' # ex) = Some (n - 1)"
      unfolding ex_def using parse_exponent_signed [of "digits_of (nat \<bar>n - 1\<bar>)"]
      by (cases "n < 1") (simp_all add: digits_of_digits)
    have "n \<le> 0 \<Longrightarrow> \<not> ?k \<le> n" using assms(1) by (cases sig) auto
    then have l: "layout sig n = (if ?k = 1 then sig else hd sig # CHR ''.'' # tl sig) @ CHR ''e'' # ex"
      using D by (auto simp: layout_def Let_def ex_def)
    show ?thesis
    proof (cases "?k = 1")
      case True
      have "parse_decimal (layout sig n) = Fin (int ?s) (n - 1)"
        unfolding l using True assms pe
        by (simp add: parse_decimal_exp(2))
      then show ?thesis using True num_eq_refl by (metis)
    next
      case False
      have s: "sig = [hd sig] @ tl sig" using assms(1) by simp
      have "parse_decimal ([hd sig] @ CHR ''.'' # tl sig @ CHR ''e'' # ex)
              = Fin (int (nat_of_digits ([hd sig] @ tl sig))) (n - 1 - int (length (tl sig)))"
        using assms pe
        by (intro parse_decimal_exp(1)) (auto simp: list_all_iff dest: list.set_sel)
      then have "parse_decimal (layout sig n) = Fin (int ?s) (n - 1 - int (length (tl sig)))"
        unfolding l using False s by simp
      moreover have "n - 1 - int (length (tl sig)) = n - ?k"
        using assms(1) by (cases sig) auto
      ultimately show ?thesis using num_eq_refl by (metis)
    qed
  qed
qed

lemma digit_num_char: "is_digit c \<Longrightarrow> num_char c"
  by (auto simp: is_digit_def num_char_def)

lemma num_char_signs [simp]: "num_char (CHR ''.'')" "num_char (CHR ''e'')"
  "num_char (CHR ''+'')" "num_char (CHR ''-'')" "num_char (CHR ''0'')"
  by (simp_all add: num_char_def)

lemma digit_not_ws: "is_digit c \<Longrightarrow> \<not> is_ws c"
  by (auto simp: is_digit_def is_ws_def)

lemma layout_form:
  assumes "sig \<noteq> []"
  obtains (A) j where "layout sig n = sig @ replicate j (CHR ''0'')"
  | (B) "layout sig n = take (nat n) sig @ CHR ''.'' # drop (nat n) sig"
      "0 < n" "n < int (length sig)"
  | (C) j where "layout sig n = ''0.'' @ replicate j (CHR ''0'') @ sig"
  | (D) sg j where
      "layout sig n = (if length sig = 1 then sig else hd sig # CHR ''.'' # tl sig)
         @ CHR ''e'' # sg # digits_of j"
      "sg = CHR ''-'' \<or> sg = CHR ''+''"
proof -
  let ?k = "int (length sig)"
  have pos: "0 < ?k" using assms(1) by simp
  consider (a) "?k \<le> n" "n \<le> 21"
    | (b) "n < ?k" "0 < n" "n \<le> 21"
    | (c) "- 6 < n" "n \<le> 0"
    | (d) "21 < n \<or> n \<le> - 6"
    by linarith
  then show thesis
  proof cases
    case a
    then have "layout sig n = sig @ replicate (nat (n - ?k)) (CHR ''0'')"
      by (auto simp: layout_def Let_def)
    then show ?thesis by (rule A)
  next
    case b
    then have "layout sig n = take (nat n) sig @ CHR ''.'' # drop (nat n) sig"
      by (auto simp: layout_def Let_def)
    then show ?thesis using b by (intro B)
  next
    case c
    have "\<not> ?k \<le> n" using pos c by linarith
    then have "layout sig n = ''0.'' @ replicate (nat (- n)) (CHR ''0'') @ sig"
      using c by (auto simp: layout_def Let_def)
    then show ?thesis by (rule C)
  next
    case d
    have "n \<le> 0 \<Longrightarrow> \<not> ?k \<le> n" using pos by linarith
    then have "layout sig n = (if length sig = 1 then sig else hd sig # CHR ''.'' # tl sig)
        @ CHR ''e'' # (if n - 1 < 0 then CHR ''-'' else CHR ''+'') # digits_of (nat \<bar>n - 1\<bar>)"
      using d by (auto simp: layout_def Let_def)
    then show ?thesis by (rule D) simp
  qed
qed

lemma layout_chars:
  assumes "sig \<noteq> []" "list_all is_digit sig"
  shows "list_all num_char (layout sig n)"
proof -
  have d: "list_all num_char sig"
    using assms(2) digit_num_char by (auto simp: list_all_iff)
  then have h: "num_char (hd sig)" and t: "list_all num_char (tl sig)"
    using assms(1) by (cases sig; simp)+
  have e: "\<And>j. list_all num_char (digits_of j)"
    using digits_of_digits digit_num_char by (auto simp: list_all_iff)
  have td: "list_all num_char (take (nat n) sig)" "list_all num_char (drop (nat n) sig)"
    using d by (auto simp: list_all_iff dest: in_set_takeD in_set_dropD)
  from assms(1) show ?thesis
  proof (cases rule: layout_form [where n = n])
    case (A j)
    then show ?thesis using d by (auto simp: list_all_iff)
  next
    case B
    then show ?thesis using td by simp
  next
    case (C j)
    then show ?thesis using d by (auto simp: list_all_iff)
  next
    case (D sg j)
    then show ?thesis using d h t e by auto
  qed
qed

lemma layout_ends:
  assumes "sig \<noteq> []" "list_all is_digit sig"
  shows "layout sig n \<noteq> []" "is_digit (hd (layout sig n))" "is_digit (last (layout sig n))"
proof -
  have hs: "is_digit (hd sig)" and ls: "is_digit (last sig)"
    using assms by (auto simp: list_all_iff)
  have ld: "\<And>j. is_digit (last (digits_of j))"
    using digits_of_digits digits_of_nonempty by (metis last_in_set list_all_iff)
  from assms(1)
  have "layout sig n \<noteq> [] \<and> is_digit (hd (layout sig n)) \<and> is_digit (last (layout sig n))"
  proof (cases rule: layout_form [where n = n])
    case (A j)
    then show ?thesis using assms(1) hs ls by (cases j) (auto simp: hd_append)
  next
    case B
    have "take (nat n) sig \<noteq> []" using B assms(1) by auto
    moreover have "hd (take (nat n) sig) = hd sig" using B by (simp)
    moreover have "drop (nat n) sig \<noteq> []" using B by auto
    moreover have "last (drop (nat n) sig) = last sig" using B by (simp)
    ultimately show ?thesis unfolding B(1) using hs ls by (simp add: hd_append)
  next
    case (C j)
    then show ?thesis using assms(1) ls by simp
  next
    case (D sg j)
    show ?thesis unfolding D(1) using assms(1) hs ld by (auto simp: hd_append)
  qed
  then show "layout sig n \<noteq> []" "is_digit (hd (layout sig n))" "is_digit (last (layout sig n))"
    by simp_all
qed

lemma num_char_not_radix:
  "num_char c \<Longrightarrow> c \<noteq> CHR ''x'' \<and> c \<noteq> CHR ''X'' \<and> c \<noteq> CHR ''o''
     \<and> c \<noteq> CHR ''O'' \<and> c \<noteq> CHR ''b'' \<and> c \<noteq> CHR ''B''"
  by (auto simp: num_char_def)

lemma parse_nondecimal_none:
  assumes "list_all num_char s"
  shows "parse_nondecimal s = None"
proof (cases s)
  case Nil
  then show ?thesis by (simp add: parse_nondecimal_def)
next
  case (Cons z r)
  show ?thesis
  proof (cases r)
    case Nil
    then show ?thesis using Cons by (simp add: parse_nondecimal_def)
  next
    case (Cons x ds)
    then have "num_char x" using assms \<open>s = z # r\<close> by simp
    then show ?thesis using num_char_not_radix [of x] Cons \<open>s = z # r\<close>
      by (simp add: parse_nondecimal_def)
  qed
qed

lemma parse_nondecimal_minus: "parse_nondecimal (CHR ''-'' # s) = None"
  by (auto simp: parse_nondecimal_def split: list.splits)

lemma render_pos_layout:
  assumes "0 < m"
  obtains sig z where "sig \<noteq> []" "list_all is_digit sig"
    "m = nat_of_digits sig * 10 ^ z"
    "render_pos (digits_of m) e = layout sig (int (length sig) + e + int z)"
proof -
  define z where "z = length (takeWhile (\<lambda>c. c = CHR ''0'') (rev (digits_of m)))"
  define sig where "sig = take (length (digits_of m) - z) (digits_of m)"
  have d: "digits_of m = sig @ replicate z (CHR ''0'')"
    unfolding sig_def z_def by (rule strip_zeros)
  have 1: "sig \<noteq> []"
    unfolding sig_def z_def using hd_digits_of [OF assms]
    by (intro strip_zeros_sig) simp_all
  have 2: "list_all is_digit sig"
    using digits_of_digits [of m] unfolding d by simp
  have "nat_of_digits (digits_of m) = nat_of_digits sig * 10 ^ z"
    unfolding d by (simp add: nat_of_digits_append)
  then have 3: "m = nat_of_digits sig * 10 ^ z" by simp
  have 4: "render_pos (digits_of m) e = layout sig (int (length sig) + e + int z)"
    by (simp add: render_pos_def Let_def sig_def z_def)
  show thesis using that [OF 1 2 3 4] .
qed

lemma render_pos_parse:
  assumes "0 < m"
  shows "\<exists>a x. parse_decimal (render_pos (digits_of m) e) = Fin (int a) x
           \<and> num_eq (Fin (int a) x) (Fin (int m) e)"
proof -
  obtain sig z where s: "sig \<noteq> []" "list_all is_digit sig"
    "m = nat_of_digits sig * 10 ^ z"
    "render_pos (digits_of m) e = layout sig (int (length sig) + e + int z)"
    using render_pos_layout [OF assms] by metis
  obtain a x where a: "parse_decimal (layout sig (int (length sig) + e + int z)) = Fin (int a) x"
    "num_eq (Fin (int a) x) (Fin (int (nat_of_digits sig)) (e + int z))"
    using layout_parse [OF s(1,2), of "int (length sig) + e + int z"] by auto
  have "num_eq (Fin (int (nat_of_digits sig)) (e + int z)) (Fin (int m) e)"
    unfolding s(3) using num_eq_shift [of "int (nat_of_digits sig)" e z] by simp
  then have "num_eq (Fin (int a) x) (Fin (int m) e)"
    using a(2) num_eq_trans by blast
  then show ?thesis using a(1) s(4) by auto
qed

lemma render_pos_text:
  assumes "0 < m"
  shows "render_pos (digits_of m) e \<noteq> []" "is_digit (hd (render_pos (digits_of m) e))"
    "is_digit (last (render_pos (digits_of m) e))"
    "list_all num_char (render_pos (digits_of m) e)"
proof -
  obtain sig z where s: "sig \<noteq> []" "list_all is_digit sig"
    "render_pos (digits_of m) e = layout sig (int (length sig) + e + int z)"
    using render_pos_layout [OF assms] by metis
  show "render_pos (digits_of m) e \<noteq> []" "is_digit (hd (render_pos (digits_of m) e))"
    "is_digit (last (render_pos (digits_of m) e))"
    "list_all num_char (render_pos (digits_of m) e)"
    unfolding s(3) using layout_ends [OF s(1,2)] layout_chars [OF s(1,2)] by simp_all
qed

lemma string_to_number_render:
  assumes "0 < m"
  shows "string_to_number (render_pos (digits_of m) e) = parse_decimal (render_pos (digits_of m) e)"
    and "string_to_number (CHR ''-'' # render_pos (digits_of m) e)
           = neg (parse_decimal (render_pos (digits_of m) e))"
proof -
  let ?out = "render_pos (digits_of m) e"
  note t = render_pos_text [OF assms, of e]
  have h: "hd ?out \<noteq> CHR ''+''" "hd ?out \<noteq> CHR ''-''" "hd ?out \<noteq> CHR ''I''"
    using t(2) by (auto simp: is_digit_def)
  have inf: "?out \<noteq> ''Infinity''" using h(3) by auto
  have 1: "trim ?out = ?out"
    using t(1-3) digit_not_ws by (intro trim_clean) auto
  have 2: "parse_nondecimal ?out = None"
    using t(4) by (rule parse_nondecimal_none)
  show "string_to_number ?out = parse_decimal ?out"
    unfolding string_to_number_def 1 Let_def using t(1) 2 h inf
    by (simp add: parse_unsigned_def)
  have 3: "trim (CHR ''-'' # ?out) = CHR ''-'' # ?out"
    using t(1,3) digit_not_ws by (intro trim_clean) (auto simp: is_ws_def)
  show "string_to_number (CHR ''-'' # ?out) = neg (parse_decimal ?out)"
    unfolding string_to_number_def 3 Let_def using inf
    by (simp add: parse_nondecimal_minus parse_unsigned_def)
qed

lemma num_to_string_roundtrip:
  assumes "x \<noteq> NaN"
  shows "num_eq (string_to_number (num_to_string x)) x"
proof (cases x)
  case NaN
  then show ?thesis using assms by simp
next
  case PosInf
  then show ?thesis by (simp add: number_defs)
next
  case NegInf
  then show ?thesis by (simp add: number_defs)
next
  case (Fin m e)
  consider (zero) "m = 0" | (pos) "0 < m" | (neg) "m < 0" by linarith
  then show ?thesis
  proof cases
    case zero
    then show ?thesis using Fin by (simp add: number_defs)
  next
    case pos
    then have p: "0 < nat \<bar>m\<bar>" by simp
    obtain a y where a: "parse_decimal (render_pos (digits_of (nat \<bar>m\<bar>)) e) = Fin (int a) y"
      "num_eq (Fin (int a) y) (Fin (int (nat \<bar>m\<bar>)) e)"
      using render_pos_parse [OF p] by blast
    show ?thesis
      using pos Fin a string_to_number_render(1) [OF p, of e] by simp
  next
    case neg
    then have p: "0 < nat \<bar>m\<bar>" by simp
    obtain a y where a: "parse_decimal (render_pos (digits_of (nat \<bar>m\<bar>)) e) = Fin (int a) y"
      "num_eq (Fin (int a) y) (Fin (int (nat \<bar>m\<bar>)) e)"
      using render_pos_parse [OF p] by blast
    have "num_eq (Fin (- int a) y) (Fin m e)"
      using a(2) neg by simp
    then show ?thesis
      using neg Fin a(1) string_to_number_render(2) [OF p, of e] by simp
  qed
qed

lemma num_char_clean: "num_char c \<Longrightarrow> c \<noteq> comma \<and> \<not> is_ws c"
  by (auto simp: num_char_def comma_def is_ws_def)

lemma num_to_string_clean:
  "num_to_string x \<noteq> []" "\<forall>c\<in>set (num_to_string x). c \<noteq> comma \<and> \<not> is_ws c"
proof -
  show "num_to_string x \<noteq> []"
  proof (cases x)
    case (Fin m e)
    have "0 < m \<Longrightarrow> render_pos (digits_of (nat m)) e \<noteq> []"
      using render_pos_text(1) [of "nat m" e] by simp
    then show ?thesis using Fin by auto
  qed simp_all
  show "\<forall>c\<in>set (num_to_string x). c \<noteq> comma \<and> \<not> is_ws c"
  proof (cases x)
    case (Fin m e)
    show ?thesis
    proof (cases "m = 0")
      case True
      then show ?thesis using Fin by (simp add: comma_def is_ws_def)
    next
      case False
      then have p: "0 < nat \<bar>m\<bar>" by simp
      have "list_all num_char (render_pos (digits_of (nat \<bar>m\<bar>)) e)"
        using render_pos_text(4) [OF p] .
      then have "\<forall>c\<in>set (render_pos (digits_of (nat \<bar>m\<bar>)) e). c \<noteq> comma \<and> \<not> is_ws c"
        using num_char_clean by (auto simp: list_all_iff)
      then show ?thesis using Fin False by (auto simp: comma_def is_ws_def)
    qed
  qed (simp_all add: comma_def is_ws_def)
qed

section \<open>Encoding a record\<close>

lemma trim_decompose:
  "\<exists>a b. s = a @ trim s @ b \<and> list_all is_ws a \<and> list_all is_ws b"
proof -
  let ?t = "dropWhile is_ws s"
  have 1: "s = takeWhile is_ws s @ ?t" by simp
  have "rev ?t = takeWhile is_ws (rev ?t) @ dropWhile is_ws (rev ?t)" by simp
  then have "rev (rev ?t) = rev (takeWhile is_ws (rev ?t) @ dropWhile is_ws (rev ?t))"
    by simp
  then have 2: "?t = trim s @ rev (takeWhile is_ws (rev ?t))"
    unfolding rev_append trim_def by simp
  have 3: "list_all is_ws (takeWhile is_ws s)"
    by (auto simp: list_all_iff dest: set_takeWhileD)
  have 4: "list_all is_ws (rev (takeWhile is_ws (rev ?t)))"
    by (auto simp: list_all_iff dest: set_takeWhileD)
  have "s = takeWhile is_ws s @ trim s @ rev (takeWhile is_ws (rev ?t))"
    using 1 2 by metis
  then show ?thesis using 3 4 by blast
qed

lemma set_trim: "set (trim s) \<subseteq> set s"
proof -
  obtain a b where "s = a @ trim s @ b" using trim_decompose by blast
  then have "set s = set a \<union> set (trim s) \<union> set b"
    by (metis set_append sup_assoc)
  then show ?thesis by auto
qed

lemma trim_trimmed: "trimmed (trim s)"
proof (cases "trim s = []")
  case True
  then show ?thesis by (simp add: trimmed_def)
next
  case False
  let ?t = "dropWhile is_ws s"
  let ?u = "dropWhile is_ws (rev ?t)"
  have u: "?u \<noteq> []" using False by (simp add: trim_def)
  then have 1: "\<not> is_ws (hd ?u)" by (rule hd_dropWhile)
  have t: "?t \<noteq> []" using u by (metis dropWhile.simps(1) rev.simps(1))
  then have 2: "\<not> is_ws (hd ?t)" by (rule hd_dropWhile)
  have l: "last (trim s) = hd ?u" using u by (simp add: trim_def last_rev)
  have "rev ?t = takeWhile is_ws (rev ?t) @ ?u" by simp
  then have "rev (rev ?t) = rev (takeWhile is_ws (rev ?t) @ ?u)" by simp
  then have "?t = trim s @ rev (takeWhile is_ws (rev ?t))"
    unfolding rev_append trim_def by simp
  then have "hd ?t = hd (trim s)" using False by (metis hd_append2)
  then show ?thesis using 1 2 l by (simp add: trimmed_def)
qed

lemma trim_id: "trimmed s \<Longrightarrow> trim s = s"
proof (cases "s = []")
  case True
  then show ?thesis by (simp add: trim_def)
next
  case False
  assume "trimmed s"
  then show ?thesis using False trim_clean by (simp add: trimmed_def)
qed

lemma replace_commas_no_comma: "comma \<notin> set (replace_commas s)"
  by (auto simp: replace_commas_def comma_def space_def)

lemma replace_commas_id: "comma \<notin> set s \<Longrightarrow> replace_commas s = s"
  by (induction s) (auto simp: replace_commas_def)

lemma replace_commas_nth:
  "length (replace_commas s) = length s"
  "i < length s \<Longrightarrow> replace_commas s ! i = (if s ! i = comma then space else s ! i)"
  by (simp_all add: replace_commas_def)

lemma safe_text:
  assumes "safe v = Inr f"
  shows "comma \<notin> set f" "trimmed f"
proof -
  obtain t where f: "f = trim (replace_commas t)"
    using assms by (auto simp: safe_def bind_def split: sum.splits)
  show "comma \<notin> set f"
    unfolding f using set_trim replace_commas_no_comma by blast
  show "trimmed f"
    unfolding f by (rule trim_trimmed)
qed

lemma amount_text_clean:
  assumes "amount_text v = Inr f"
  shows "f \<noteq> []" "\<forall>c\<in>set f. c \<noteq> comma \<and> \<not> is_ws c"
proof -
  obtain x where f: "f = num_to_string x"
    using assms by (auto simp: amount_text_def bind_def split: sum.splits)
  show "f \<noteq> []" "\<forall>c\<in>set f. c \<noteq> comma \<and> \<not> is_ws c"
    unfolding f using num_to_string_clean by blast+
qed

lemma toCsvLine_fields:
  assumes "toCsvLine r = Inr l"
  obtains f0 f1 f2 f3 f4 f5 where
    "safe (rec_id r) = Inr f0" "safe (date r) = Inr f1" "safe (category r) = Inr f2"
    "safe (payee r) = Inr f3" "amount_text (amount r) = Inr f4" "safe (rec_notes r) = Inr f5"
    "l = join comma [f0, f1, f2, f3, f4, f5] @ [newline]"
  using assms unfolding toCsvLine_def bind_def
  by (auto split: sum.splits)

lemma toCsvLine_split:
  assumes "toCsvLine r = Inr l"
  obtains f0 f1 f2 f3 f4 f5 where
    "safe (rec_id r) = Inr f0" "safe (date r) = Inr f1" "safe (category r) = Inr f2"
    "safe (payee r) = Inr f3" "amount_text (amount r) = Inr f4" "safe (rec_notes r) = Inr f5"
    "l = join comma [f0, f1, f2, f3, f4, f5] @ [newline]"
    "split comma (join comma [f0, f1, f2, f3, f4, f5]) = [f0, f1, f2, f3, f4, f5]"
    "split comma l = [f0, f1, f2, f3, f4, f5 @ [newline]]"
proof -
  obtain f0 f1 f2 f3 f4 f5 where f:
    "safe (rec_id r) = Inr f0" "safe (date r) = Inr f1" "safe (category r) = Inr f2"
    "safe (payee r) = Inr f3" "amount_text (amount r) = Inr f4" "safe (rec_notes r) = Inr f5"
    "l = join comma [f0, f1, f2, f3, f4, f5] @ [newline]"
    using toCsvLine_fields [OF assms] by metis
  have c: "\<forall>g\<in>set [f0, f1, f2, f3, f4, f5]. comma \<notin> set g"
    using safe_text(1) [OF f(1)] safe_text(1) [OF f(2)] safe_text(1) [OF f(3)]
      safe_text(1) [OF f(4)] safe_text(1) [OF f(6)] amount_text_clean(2) [OF f(5)]
    by auto
  have 1: "split comma (join comma [f0, f1, f2, f3, f4, f5]) = [f0, f1, f2, f3, f4, f5]"
    using c by (intro split_join) simp_all
  have "l = join comma [f0, f1, f2, f3, f4, f5 @ [newline]]"
    unfolding f(7) by simp
  moreover have "\<forall>g\<in>set [f0, f1, f2, f3, f4, f5 @ [newline]]. comma \<notin> set g"
    using c by (auto simp: comma_def newline_def)
  ultimately have 2: "split comma l = [f0, f1, f2, f3, f4, f5 @ [newline]]"
    using split_join [of "[f0, f1, f2, f3, f4, f5 @ [newline]]" comma] by simp
  show thesis using that [OF f 1 2] .
qed

lemma toCsvLine_parse:
  assumes "toCsvLine r = Inr l"
  obtains f0 f1 f2 f3 f4 f5 where
    "safe (rec_id r) = Inr f0" "safe (date r) = Inr f1" "safe (category r) = Inr f2"
    "safe (payee r) = Inr f3" "amount_text (amount r) = Inr f4" "safe (rec_notes r) = Inr f5"
    "l = join comma [f0, f1, f2, f3, f4, f5] @ [newline]"
    "split comma (butlast l) = [f0, f1, f2, f3, f4, f5]"
    "split comma l = [f0, f1, f2, f3, f4, f5 @ [newline]]"
    "parseCsvLine (butlast l) =
       \<lparr> rec_id = Str f0, date = Str f1, category = Str f2, payee = Str f3,
         amount = Num (string_to_number f4), rec_notes = Str f5 \<rparr>"
proof -
  obtain f0 f1 f2 f3 f4 f5 where f:
    "safe (rec_id r) = Inr f0" "safe (date r) = Inr f1" "safe (category r) = Inr f2"
    "safe (payee r) = Inr f3" "amount_text (amount r) = Inr f4" "safe (rec_notes r) = Inr f5"
    "l = join comma [f0, f1, f2, f3, f4, f5] @ [newline]"
    "split comma (join comma [f0, f1, f2, f3, f4, f5]) = [f0, f1, f2, f3, f4, f5]"
    "split comma l = [f0, f1, f2, f3, f4, f5 @ [newline]]"
    using toCsvLine_split [OF assms] by metis
  have b: "butlast l = join comma [f0, f1, f2, f3, f4, f5]"
    unfolding f(7) by (simp only: butlast_snoc)
  have 1: "split comma (butlast l) = [f0, f1, f2, f3, f4, f5]"
    unfolding b by (rule f(8))
  have 2: "parseCsvLine (butlast l) =
       \<lparr> rec_id = Str f0, date = Str f1, category = Str f2, payee = Str f3,
         amount = Num (string_to_number f4), rec_notes = Str f5 \<rparr>"
    unfolding parseCsvLine_def 1 by (simp add: field_def nullish_or_def)
  show thesis using that [OF f(1-7) 1 f(9) 2] .
qed

lemma safe_Str: "safe (Str s) = Inr (trim (replace_commas s))"
  by (simp add: safe_def bind_def nullish_or_def)

lemma safe_clean: "comma \<notin> set s \<Longrightarrow> trimmed s \<Longrightarrow> safe (Str s) = Inr s"
  by (simp add: safe_Str replace_commas_id trim_id)

lemma amount_text_roundtrip:
  assumes "x \<noteq> NaN" "amount_text (Num x) = Inr f"
  shows "num_eq (string_to_number f) x"
proof (cases "falsy_num x")
  case True
  then obtain e where x: "x = Fin 0 e" using assms(1) by (cases x) auto
  have "f = ''0''" using assms(2) unfolding x by (simp add: amount_text_def bind_def)
  then show ?thesis unfolding x by (simp add: number_defs)
next
  case False
  then have "f = num_to_string x" using assms(2) by (simp add: amount_text_def bind_def)
  then show ?thesis using num_to_string_roundtrip [OF assms(1)] by simp
qed

lemma clean_record_roundtrips:
  assumes "text_record (\<lambda>s. comma \<notin> set s \<and> trimmed s) r" "amount r \<noteq> Num NaN"
  shows "roundtrips r"
proof -
  obtain s0 s1 s2 s3 s5 x where v: "rec_id r = Str s0" "date r = Str s1" "category r = Str s2"
    "payee r = Str s3" "rec_notes r = Str s5" "amount r = Num x"
    using assms(1) by (auto simp: text_record_def is_text_def split: jsval.splits)
  have c: "comma \<notin> set s0 \<and> trimmed s0" "comma \<notin> set s1 \<and> trimmed s1"
    "comma \<notin> set s2 \<and> trimmed s2" "comma \<notin> set s3 \<and> trimmed s3"
    "comma \<notin> set s5 \<and> trimmed s5"
    using assms(1) unfolding text_record_def v by (simp_all add: is_text_def)
  have x: "x \<noteq> NaN" using assms(2) v(6) by simp
  obtain f4 where f4: "amount_text (Num x) = Inr f4"
    using amount_text_Num by blast
  have l: "toCsvLine r = Inr (join comma [s0, s1, s2, s3, f4, s5] @ [newline])"
    unfolding toCsvLine_def v using c f4 by (simp add: safe_clean bind_def)
  obtain g0 g1 g2 g3 g4 g5 where g:
    "safe (rec_id r) = Inr g0" "safe (date r) = Inr g1" "safe (category r) = Inr g2"
    "safe (payee r) = Inr g3" "amount_text (amount r) = Inr g4" "safe (rec_notes r) = Inr g5"
    "parseCsvLine (butlast (join comma [s0, s1, s2, s3, f4, s5] @ [newline])) =
       \<lparr> rec_id = Str g0, date = Str g1, category = Str g2, payee = Str g3,
         amount = Num (string_to_number g4), rec_notes = Str g5 \<rparr>"
    using toCsvLine_parse [OF l] by metis
  have e: "g0 = s0" "g1 = s1" "g2 = s2" "g3 = s3" "g4 = f4" "g5 = s5"
    using g(1-6) c f4 unfolding v by (simp_all add: safe_clean)
  have "same_transaction
      (parseCsvLine (butlast (join comma [s0, s1, s2, s3, f4, s5] @ [newline]))) r"
    unfolding g(7) e using v amount_text_roundtrip [OF x f4]
    by (simp add: same_transaction_def same_amount_def)
  then show ?thesis
    unfolding roundtrips_def l by simp
qed

text \<open>
  Claim C3, as stated, fails twice. A record without any comma whose notes begin with
  a space comes back with the space trimmed away, and a record whose amount is
  not-a-number comes back with the amount 0.
\<close>

theorem roundtrip_counterexample:
  "text_record (\<lambda>s. comma \<notin> set s)
     \<lparr> rec_id = Str ''1'', date = Str ''2025-01-01'', category = Str ''Food'',
       payee = Str ''Shop'', amount = Num (Fin (- 105) (- 1)), rec_notes = Str '' ok'' \<rparr>
   \<and> toCsvLine
     \<lparr> rec_id = Str ''1'', date = Str ''2025-01-01'', category = Str ''Food'',
       payee = Str ''Shop'', amount = Num (Fin (- 105) (- 1)), rec_notes = Str '' ok'' \<rparr>
     = Inr (''1,2025-01-01,Food,Shop,-10.5,ok'' @ [newline])
   \<and> parseCsvLine ''1,2025-01-01,Food,Shop,-10.5,ok''
     = \<lparr> rec_id = Str ''1'', date = Str ''2025-01-01'', category = Str ''Food'',
         payee = Str ''Shop'', amount = Num (Fin (- 105) (- 1)), rec_notes = Str ''ok'' \<rparr>
   \<and> \<not> roundtrips
     \<lparr> rec_id = Str ''1'', date = Str ''2025-01-01'', category = Str ''Food'',
       payee = Str ''Shop'', amount = Num (Fin (- 105) (- 1)), rec_notes = Str '' ok'' \<rparr>
   \<and> text_record (\<lambda>s. comma \<notin> set s)
     \<lparr> rec_id = Str ''2'', date = Str ''2025-01-01'', category = Str ''Food'',
       payee = Str ''Shop'', amount = Num NaN, rec_notes = Str ''ok'' \<rparr>
   \<and> \<not> roundtrips
     \<lparr> rec_id = Str ''2'', date = Str ''2025-01-01'', category = Str ''Food'',
       payee = Str ''Shop'', amount = Num NaN, rec_notes = Str ''ok'' \<rparr>"
proof -
  let ?r = "\<lparr> rec_id = Str ''1'', date = Str ''2025-01-01'', category = Str ''Food'',
       payee = Str ''Shop'', amount = Num (Fin (- 105) (- 1)), rec_notes = Str '' ok'' \<rparr>"
  let ?q = "\<lparr> rec_id = Str ''2'', date = Str ''2025-01-01'', category = Str ''Food'',
       payee = Str ''Shop'', amount = Num NaN, rec_notes = Str ''ok'' \<rparr>"
  have t: "text_record (\<lambda>s. comma \<notin> set s) ?r" "text_record (\<lambda>s. comma \<notin> set s) ?q"
    by (simp_all add: text_record_def is_text_def comma_def)
  have e: "toCsvLine ?r = Inr (''1,2025-01-01,Food,Shop,-10.5,ok'' @ [newline])"
    by (simp add: codec_defs)
  have n: "string_to_number ''-10.5'' = Fin (- 105) (- 1)"
    by (simp add: number_defs)
  have d: "parseCsvLine ''1,2025-01-01,Food,Shop,-10.5,ok''
     = \<lparr> rec_id = Str ''1'', date = Str ''2025-01-01'', category = Str ''Food'',
         payee = Str ''Shop'', amount = Num (Fin (- 105) (- 1)), rec_notes = Str ''ok'' \<rparr>"
    by (simp add: parseCsvLine_def comma_def field_def nullish_or_def n)
  have 1: "\<not> roundtrips ?r"
    unfolding roundtrips_def e by (simp add: d same_transaction_def)
  have e2: "toCsvLine ?q = Inr (''2,2025-01-01,Food,Shop,0,ok'' @ [newline])"
    by (simp add: codec_defs)
  have n2: "string_to_number ''0'' = Fin 0 0"
    by (simp add: number_defs)
  have d2: "parseCsvLine ''2,2025-01-01,Food,Shop,0,ok''
     = \<lparr> rec_id = Str ''2'', date = Str ''2025-01-01'', category = Str ''Food'',
         payee = Str ''Shop'', amount = Num (Fin 0 0), rec_notes = Str ''ok'' \<rparr>"
    by (simp add: parseCsvLine_def comma_def field_def nullish_or_def n2)
  have 2: "\<not> roundtrips ?q"
    unfolding roundtrips_def e2 by (simp add: d2 same_transaction_def same_amount_def)
  show ?thesis using t e d 1 2 by simp
qed

text \<open>
  Claim C3, amended. For every record whose text fields are strings without a comma and
  without white space at either end, and whose amount is a number other than
  not-a-number, encoding the record and decoding the line gives a record with the same
  text fields and a numerically equal amount.
\<close>

theorem roundtrip_of_clean_record:
  "text_record (\<lambda>s. comma \<notin> set s \<and> trimmed s) r \<and> amount r \<noteq> Num NaN \<longrightarrow> roundtrips r"
  using clean_record_roundtrips by blast

theorem roundtrip_of_clean_record_witness:
  "text_record (\<lambda>s. comma \<notin> set s \<and> trimmed s)
     \<lparr> rec_id = Str ''1'', date = Str ''2025-01-01'', category = Str ''Food'',
       payee = Str ''Shop'', amount = Num (Fin (- 105) (- 1)), rec_notes = Str ''ok'' \<rparr>
   \<and> roundtrips
     \<lparr> rec_id = Str ''1'', date = Str ''2025-01-01'', category = Str ''Food'',
       payee = Str ''Shop'', amount = Num (Fin (- 105) (- 1)), rec_notes = Str ''ok'' \<rparr>"
proof -
  let ?r = "\<lparr> rec_id = Str ''1'', date = Str ''2025-01-01'', category = Str ''Food'',
       payee = Str ''Shop'', amount = Num (Fin (- 105) (- 1)), rec_notes = Str ''ok'' \<rparr>"
  have t: "text_record (\<lambda>s. comma \<notin> set s \<and> trimmed s) ?r"
    by (simp add: text_record_def is_text_def comma_def trimmed_def is_ws_def)
  then show ?thesis
    using roundtrip_of_clean_record [of ?r] by simp
qed

text \<open>
  Claim C4. Whenever a record is encoded, the line ends in a newline and splits, with
  or without that newline, into exactly six fields, none of which holds a comma; each
  text field of the line is the string of the record's field with every comma replaced
  by one space and the surrounding white space trimmed, and that is what decoding gives
  back. Replacing keeps the length of a string and changes the commas only. Notes
  \<open>a,b,c\<close> come back as \<open>a b c\<close>.
\<close>

theorem encoded_line_has_six_fields:
  "(toCsvLine r = Inr l \<longrightarrow>
      l \<noteq> [] \<and> last l = newline
      \<and> length (split comma l) = 6 \<and> length (split comma (butlast l)) = 6
      \<and> (\<forall>f\<in>set (split comma (butlast l)). comma \<notin> set f)
      \<and> (\<forall>s. rec_notes r = Str s \<longrightarrow>
            rec_notes (parseCsvLine (butlast l)) = Str (trim (replace_commas s)))
      \<and> (\<forall>s. payee r = Str s \<longrightarrow>
            payee (parseCsvLine (butlast l)) = Str (trim (replace_commas s)))
      \<and> (\<forall>s. category r = Str s \<longrightarrow>
            category (parseCsvLine (butlast l)) = Str (trim (replace_commas s)))
      \<and> (\<forall>s. date r = Str s \<longrightarrow>
            date (parseCsvLine (butlast l)) = Str (trim (replace_commas s)))
      \<and> (\<forall>s. rec_id r = Str s \<longrightarrow>
            rec_id (parseCsvLine (butlast l)) = Str (trim (replace_commas s)))
      \<and> (rec_notes r = Str ''a,b,c'' \<longrightarrow>
            rec_notes (parseCsvLine (butlast l)) = Str ''a b c''))
   \<and> length (replace_commas t) = length t
   \<and> (i < length t \<longrightarrow> replace_commas t ! i = (if t ! i = comma then space else t ! i))"
proof (intro conjI impI)
  assume a: "toCsvLine r = Inr l"
  obtain f0 f1 f2 f3 f4 f5 where f:
    "safe (rec_id r) = Inr f0" "safe (date r) = Inr f1" "safe (category r) = Inr f2"
    "safe (payee r) = Inr f3" "amount_text (amount r) = Inr f4" "safe (rec_notes r) = Inr f5"
    "l = join comma [f0, f1, f2, f3, f4, f5] @ [newline]"
    "split comma (butlast l) = [f0, f1, f2, f3, f4, f5]"
    "split comma l = [f0, f1, f2, f3, f4, f5 @ [newline]]"
    "parseCsvLine (butlast l) =
       \<lparr> rec_id = Str f0, date = Str f1, category = Str f2, payee = Str f3,
         amount = Num (string_to_number f4), rec_notes = Str f5 \<rparr>"
    using toCsvLine_parse [OF a] by metis
  show "l \<noteq> []" "last l = newline"
    unfolding f(7) by simp_all
  show "length (split comma l) = 6" "length (split comma (butlast l)) = 6"
    unfolding f(8) f(9) by simp_all
  show "\<forall>f\<in>set (split comma (butlast l)). comma \<notin> set f"
    using split_pieces by blast
  show "\<forall>s. rec_notes r = Str s \<longrightarrow>
            rec_notes (parseCsvLine (butlast l)) = Str (trim (replace_commas s))"
    using f(6) unfolding f(10) by (auto simp: safe_Str)
  show "\<forall>s. payee r = Str s \<longrightarrow>
            payee (parseCsvLine (butlast l)) = Str (trim (replace_commas s))"
    using f(4) unfolding f(10) by (auto simp: safe_Str)
  show "\<forall>s. category r = Str s \<longrightarrow>
            category (parseCsvLine (butlast l)) = Str (trim (replace_commas s))"
    using f(3) unfolding f(10) by (auto simp: safe_Str)
  show "\<forall>s. date r = Str s \<longrightarrow>
            date (parseCsvLine (butlast l)) = Str (trim (replace_commas s))"
    using f(2) unfolding f(10) by (auto simp: safe_Str)
  show "\<forall>s. rec_id r = Str s \<longrightarrow>
            rec_id (parseCsvLine (butlast l)) = Str (trim (replace_commas s))"
    using f(1) unfolding f(10) by (auto simp: safe_Str)
  assume "rec_notes r = Str ''a,b,c''"
  then have "f5 = trim (replace_commas ''a,b,c'')"
    using f(6) by (simp add: safe_Str)
  then show "rec_notes (parseCsvLine (butlast l)) = Str ''a b c''"
    unfolding f(10) by (simp add: trim_def replace_commas_def comma_def space_def is_ws_def)
next
  show "length (replace_commas t) = length t"
    by (rule replace_commas_nth(1))
next
  assume "i < length t"
  then show "replace_commas t ! i = (if t ! i = comma then space else t ! i)"
    by (rule replace_commas_nth(2))
qed

theorem encoded_line_has_six_fields_witness:
  "toCsvLine \<lparr> rec_id = Str ''1'', date = Str ''2025-01-01'', category = Str ''Food'',
       payee = Str ''Shop'', amount = Num (Fin (- 105) (- 1)), rec_notes = Str ''a,b,c'' \<rparr>
     = Inr (''1,2025-01-01,Food,Shop,-10.5,a b c'' @ [newline])
   \<and> length (split comma (''1,2025-01-01,Food,Shop,-10.5,a b c'' @ [newline])) = 6
   \<and> rec_notes (parseCsvLine ''1,2025-01-01,Food,Shop,-10.5,a b c'') = Str ''a b c''"
proof -
  let ?r = "\<lparr> rec_id = Str ''1'', date = Str ''2025-01-01'', category = Str ''Food'',
       payee = Str ''Shop'', amount = Num (Fin (- 105) (- 1)), rec_notes = Str ''a,b,c'' \<rparr>"
  let ?l = "''1,2025-01-01,Food,Shop,-10.5,a b c'' @ [newline]"
  have e: "toCsvLine ?r = Inr ?l"
    by (simp add: codec_defs)
  have b: "butlast ?l = ''1,2025-01-01,Food,Shop,-10.5,a b c''"
    by (simp only: butlast_snoc)
  have n: "rec_notes ?r = Str ''a,b,c''"
    by simp
  note t = encoded_line_has_six_fields [of ?r ?l "[]" 0]
  have 1: "length (split comma ?l) = 6"
    using t e by blast
  have 2: "rec_notes (parseCsvLine (butlast ?l)) = Str ''a b c''"
    using t e n by blast
  show ?thesis using e 1 2 unfolding b by blast
qed

section \<open>The array and the file\<close>

lemma loadAll_rows: "loadAll (File c) = Inr (rows c, File c)"
  by (simp add: loadAll_file rows_def)

lemma ends_cleanlyE:
  assumes "ends_cleanly c"
  obtains b where "c = b @ [newline]" "b \<noteq> []" "\<not> is_ws (last b)"
proof -
  have "c = butlast c @ [newline]"
    using assms unfolding ends_cleanly_def by (metis append_butlast_last_id)
  then show thesis using that assms unfolding ends_cleanly_def by blast
qed

lemma rows_append:
  assumes "ends_cleanly c" "body \<noteq> []" "newline \<notin> set body" "\<not> is_ws (last body)"
  shows "rows (c @ body @ [newline]) = rows c @ [parseCsvLine body]"
    and "ends_cleanly (c @ body @ [newline])"
proof -
  obtain b where b: "c = b @ [newline]" "b \<noteq> []" "\<not> is_ws (last b)"
    using ends_cleanlyE [OF assms(1)] by blast
  let ?t = "dropWhile is_ws b"
  have m: "last b \<in> set b" using b(2) by simp
  have 1: "trim c = ?t"
    unfolding b(1) using trim_line [OF b(2,3)] .
  have "c @ body @ [newline] = (b @ newline # body) @ [newline]"
    unfolding b(1) by simp
  moreover have "trim ((b @ newline # body) @ [newline]) = dropWhile is_ws (b @ newline # body)"
    using assms(2,4) by (intro trim_line) simp_all
  moreover have "dropWhile is_ws (b @ newline # body) = ?t @ newline # body"
    using m b(3) by (meson dropWhile_append1)
  ultimately have 2: "trim (c @ body @ [newline]) = ?t @ newline # body"
    by simp
  have 3: "split newline (?t @ newline # body) = split newline ?t @ [body]"
    using split_app [of newline ?t body] split_no_sep [OF assms(3)] by simp
  have 4: "tl (split newline ?t @ [body]) = tl (split newline ?t) @ [body]"
    by (cases "split newline ?t") simp_all
  show "rows (c @ body @ [newline]) = rows c @ [parseCsvLine body]"
    unfolding rows_def 1 2 3 4 using assms(2) by simp
  show "ends_cleanly (c @ body @ [newline])"
    unfolding ends_cleanly_def using assms(2,4)
    by (simp add: butlast_append)
qed

lemma join_last:
  "last (join d (f0 # f1 # fs)) = (if last (f1 # fs) = [] then d else last (last (f1 # fs)))"
  by (induction fs arbitrary: f0 f1) auto

lemma join_no_char:
  "c \<noteq> d \<Longrightarrow> \<forall>f\<in>set fs. c \<notin> set f \<Longrightarrow> c \<notin> set (join d fs)"
  by (induction d fs rule: join.induct) auto

lemma comma_not_ws [simp]: "\<not> is_ws comma" "comma \<noteq> newline" "newline \<noteq> comma"
  by (simp_all add: is_ws_def comma_def newline_def)

lemma line_safe_record_line:
  assumes "text_record line_safe r" "amount r \<noteq> Num NaN"
  obtains body where "toCsvLine r = Inr (body @ [newline])" "body \<noteq> []"
    "newline \<notin> set body" "\<not> is_ws (last body)" "same_transaction (parseCsvLine body) r"
proof -
  obtain s0 s1 s2 s3 s5 x where v: "rec_id r = Str s0" "date r = Str s1" "category r = Str s2"
    "payee r = Str s3" "rec_notes r = Str s5" "amount r = Num x"
    using assms(1) by (auto simp: text_record_def is_text_def split: jsval.splits)
  have c: "line_safe s0" "line_safe s1" "line_safe s2" "line_safe s3" "line_safe s5"
    using assms(1) unfolding text_record_def v by (simp_all add: is_text_def)
  have t: "text_record (\<lambda>s. comma \<notin> set s \<and> trimmed s) r"
    using c unfolding text_record_def v by (simp add: is_text_def line_safe_def)
  obtain f4 where f4: "amount_text (Num x) = Inr f4"
    using amount_text_Num by blast
  note a = amount_text_clean [OF f4]
  let ?body = "join comma [s0, s1, s2, s3, f4, s5]"
  have l: "toCsvLine r = Inr (?body @ [newline])"
    unfolding toCsvLine_def v using c f4 by (simp add: safe_clean bind_def line_safe_def)
  have 1: "?body \<noteq> []" by simp
  have "\<forall>f\<in>set [s0, s1, s2, s3, f4, s5]. newline \<notin> set f"
    using c a(2) by (auto simp: line_safe_def)
  then have 2: "newline \<notin> set ?body"
    by (intro join_no_char) simp_all
  have "last ?body = (if s5 = [] then comma else last s5)"
    by (simp only: join_last) simp
  then have 3: "\<not> is_ws (last ?body)"
    using c(5) by (auto simp: line_safe_def trimmed_def)
  have "roundtrips r"
    using clean_record_roundtrips [OF t assms(2)] .
  then have 4: "same_transaction (parseCsvLine ?body) r"
    unfolding roundtrips_def l by (simp only: sum.case butlast_snoc)
  show thesis using that [OF l 1 2 3 4] .
qed

lemma clean_post_record:
  assumes "clean_post ev body"
  obtains x where "to_number (body_prop body ''amount'') = Inr x" "x \<noteq> NaN"
    "text_record line_safe (new_record ev body x)"
    "truthy (body_prop body ''date'')" "truthy (body_prop body ''category'')"
    "body_prop body ''amount'' \<noteq> Undefined"
proof -
  obtain x where x: "to_number (body_prop body ''amount'') = Inr x" "x \<noteq> NaN"
    using assms by (auto simp: clean_post_def is_nan_def split: sum.splits)
  have e: "line_safe []" by (simp add: line_safe_def trimmed_def)
  have p: "is_text line_safe (or_else (body_prop body ''payee'') (Str []))"
    "is_text line_safe (or_else (body_prop body ''notes'') (Str []))"
    using assms e by (auto simp: clean_post_def or_else_def is_text_def)
  have d: "is_text line_safe (body_prop body ''date'')"
    "is_text line_safe (body_prop body ''category'')"
    "truthy (body_prop body ''date'')" "truthy (body_prop body ''category'')"
    using assms by (auto simp: clean_post_def is_text_def split: jsval.splits)
  have "text_record line_safe (new_record ev body x)"
    using assms p d(1,2) by (simp add: text_record_def new_record_def clean_post_def is_text_def)
  then show thesis using that x d(3,4) assms by (simp add: clean_post_def)
qed

lemma steady_file:
  assumes "steady s"
  obtains c where "disk s = File c" "ends_cleanly c"
    "list_all2 same_transaction (rows c) (transactions s)"
  using assms unfolding steady_def in_sync_def
  by (cases "disk s") (auto simp: loadAll_rows)

lemma steady_create:
  assumes "steady s" "clean_post ev body"
  shows "\<exists>r. fst (create ev body s) = Created r" and "steady (snd (create ev body s))"
proof -
  obtain c where c: "disk s = File c" "ends_cleanly c"
    "list_all2 same_transaction (rows c) (transactions s)"
    using steady_file [OF assms(1)] by blast
  obtain x where x: "to_number (body_prop body ''amount'') = Inr x" "x \<noteq> NaN"
    "text_record line_safe (new_record ev body x)"
    "truthy (body_prop body ''date'')" "truthy (body_prop body ''category'')"
    "body_prop body ''amount'' \<noteq> Undefined"
    using clean_post_record [OF assms(2)] by blast
  let ?r = "new_record ev body x"
  have "amount ?r \<noteq> Num NaN" using x(2) by (simp add: new_record_def)
  then obtain b where b: "toCsvLine ?r = Inr (b @ [newline])" "b \<noteq> []"
    "newline \<notin> set b" "\<not> is_ws (last b)" "same_transaction (parseCsvLine b) ?r"
    using line_safe_record_line [OF x(3)] by blast
  have cr: "create ev body s =
      (Created ?r, \<lparr> transactions = transactions s @ [?r], disk = File (c @ b @ [newline]) \<rparr>)"
    using create_accepts [OF x(4,5,6,1,2) b(1) c(1)] .
  show "\<exists>r. fst (create ev body s) = Created r"
    unfolding cr by simp
  note ra = rows_append [OF c(2) b(2,3,4)]
  have "list_all2 same_transaction (rows (c @ b @ [newline])) (transactions s @ [?r])"
    unfolding ra(1) using c(3) b(5) by (simp add: list_all2_appendI)
  then show "steady (snd (create ev body s))"
    unfolding cr steady_def in_sync_def using ra(2) by (simp add: loadAll_rows)
qed

lemma same_transaction_refl: "same_transaction r r"
  by (simp add: same_transaction_def same_amount_def)

lemma steady_startup:
  assumes "well_formed_store d" "startup d = Inr s"
  shows "steady s"
proof (cases d)
  case (File c)
  then have "s = \<lparr> transactions = rows c, disk = File c \<rparr>"
    using assms(2) by (simp add: startup_def loadAll_rows bind_def)
  then show ?thesis using assms(1) File
    by (simp add: steady_def in_sync_def loadAll_rows well_formed_store_def
        list_all2_refl same_transaction_refl)
next
  case NoDir
  then have "s = \<lparr> transactions = [], disk = File header \<rparr>"
    using assms(2) startup_fresh by simp
  then show ?thesis
    by (simp add: steady_def in_sync_def load_defs ends_cleanly_def)
next
  case DirOnly
  have "startup DirOnly = Inr \<lparr> transactions = [], disk = File header \<rparr>"
    by (simp add: startup_def load_defs)
  then have "s = \<lparr> transactions = [], disk = File header \<rparr>"
    using assms(2) DirOnly by simp
  then show ?thesis
    by (simp add: steady_def in_sync_def load_defs ends_cleanly_def)
qed

lemma steady_run:
  assumes "steady s" "list_all clean_request qs"
  shows "steady (run qs s)"
  using assms
proof (induction qs arbitrary: s)
  case Nil
  then show ?case by simp
next
  case (Cons q qs)
  have "steady (snd (handle q s))"
  proof (cases q)
    case Get
    then show ?thesis using Cons.prems(1) by (simp add: list_transactions_def)
  next
    case (Post ev body)
    then show ?thesis using Cons.prems steady_create(2) by simp
  qed
  then show ?case using Cons by simp
qed

text \<open>
  Claim C2, as stated, fails: encoding loses the commas. After the start against a
  missing directory, a request with the notes \<open>a,b\<close> is answered with status 200; the
  array holds the notes \<open>a,b\<close> and the file decodes to the notes \<open>a b\<close>.
\<close>

theorem memory_file_counterexample:
  "startup NoDir = Inr \<lparr> transactions = [], disk = File header \<rparr>
   \<and> create \<lparr> uuid = Some ''u-1'', now = 1700000000000 \<rparr>
       (Obj [(''date'', Str ''2025-01-01''), (''category'', Str ''Food''),
             (''amount'', Num (Fin 5 0)), (''notes'', Str ''a,b'')])
       \<lparr> transactions = [], disk = File header \<rparr>
     = (Created \<lparr> rec_id = Str ''u-1'', date = Str ''2025-01-01'', category = Str ''Food'',
                  payee = Str [], amount = Num (Fin 5 0), rec_notes = Str ''a,b'' \<rparr>,
        \<lparr> transactions =
            [\<lparr> rec_id = Str ''u-1'', date = Str ''2025-01-01'', category = Str ''Food'',
               payee = Str [], amount = Num (Fin 5 0), rec_notes = Str ''a,b'' \<rparr>],
          disk = File (header @ ''u-1,2025-01-01,Food,,5,a b'' @ [newline]) \<rparr>)
   \<and> loadAll (File (header @ ''u-1,2025-01-01,Food,,5,a b'' @ [newline]))
     = Inr ([\<lparr> rec_id = Str ''u-1'', date = Str ''2025-01-01'', category = Str ''Food'',
               payee = Str [], amount = Num (Fin 5 0), rec_notes = Str ''a b'' \<rparr>],
            File (header @ ''u-1,2025-01-01,Food,,5,a b'' @ [newline]))
   \<and> \<not> in_sync
        \<lparr> transactions =
            [\<lparr> rec_id = Str ''u-1'', date = Str ''2025-01-01'', category = Str ''Food'',
               payee = Str [], amount = Num (Fin 5 0), rec_notes = Str ''a,b'' \<rparr>],
          disk = File (header @ ''u-1,2025-01-01,Food,,5,a b'' @ [newline]) \<rparr>"
proof -
  have n: "string_to_number ''5'' = Fin 5 0"
    by (simp add: number_defs)
  have 1: "create \<lparr> uuid = Some ''u-1'', now = 1700000000000 \<rparr>
       (Obj [(''date'', Str ''2025-01-01''), (''category'', Str ''Food''),
             (''amount'', Num (Fin 5 0)), (''notes'', Str ''a,b'')])
       \<lparr> transactions = [], disk = File header \<rparr>
     = (Created \<lparr> rec_id = Str ''u-1'', date = Str ''2025-01-01'', category = Str ''Food'',
                  payee = Str [], amount = Num (Fin 5 0), rec_notes = Str ''a,b'' \<rparr>,
        \<lparr> transactions =
            [\<lparr> rec_id = Str ''u-1'', date = Str ''2025-01-01'', category = Str ''Food'',
               payee = Str [], amount = Num (Fin 5 0), rec_notes = Str ''a,b'' \<rparr>],
          disk = File (header @ ''u-1,2025-01-01,Food,,5,a b'' @ [newline]) \<rparr>)"
    by (simp add: create_defs)
  have 2: "loadAll (File (header @ ''u-1,2025-01-01,Food,,5,a b'' @ [newline]))
     = Inr ([\<lparr> rec_id = Str ''u-1'', date = Str ''2025-01-01'', category = Str ''Food'',
               payee = Str [], amount = Num (Fin 5 0), rec_notes = Str ''a b'' \<rparr>],
            File (header @ ''u-1,2025-01-01,Food,,5,a b'' @ [newline]))"
    by (simp add: load_defs n)
  have 3: "\<not> in_sync
        \<lparr> transactions =
            [\<lparr> rec_id = Str ''u-1'', date = Str ''2025-01-01'', category = Str ''Food'',
               payee = Str [], amount = Num (Fin 5 0), rec_notes = Str ''a,b'' \<rparr>],
          disk = File (header @ ''u-1,2025-01-01,Food,,5,a b'' @ [newline]) \<rparr>"
    unfolding in_sync_def server.select_convs 2 by (simp add: same_transaction_def)
  show ?thesis using startup_fresh 1 2 3 by blast
qed

text \<open>
  Claim C2, amended. Start from a store that has no file yet or whose file ends in a
  character other than white space and one newline. After any sequence of list requests
  and of create requests whose identifier, date, category and, when present, payee and
  notes are texts without comma, newline and surrounding white space, every create
  request was answered with status 200, and decoding the data lines of the file gives
  the records of the array, one for one and in the same order, the amounts numerically
  equal.
\<close>

theorem memory_and_file_in_sync:
  "(well_formed_store d \<and> startup d = Inr s0 \<and> list_all clean_request qs \<longrightarrow>
      steady (run qs s0) \<and> in_sync (run qs s0))
   \<and> (steady s \<and> clean_post ev body \<longrightarrow>
        (\<exists>r. fst (create ev body s) = Created r)
        \<and> steady (snd (create ev body s)) \<and> in_sync (snd (create ev body s)))"
proof (intro conjI impI)
  assume a: "well_formed_store d \<and> startup d = Inr s0 \<and> list_all clean_request qs"
  then have "steady s0" using steady_startup by blast
  then show "steady (run qs s0)" using a steady_run by blast
  then show "in_sync (run qs s0)" by (simp add: steady_def)
next
  assume a: "steady s \<and> clean_post ev body"
  then show "\<exists>r. fst (create ev body s) = Created r"
    using steady_create(1) by blast
  show "steady (snd (create ev body s))"
    using a steady_create(2) by blast
  then show "in_sync (snd (create ev body s))" by (simp add: steady_def)
qed

theorem memory_and_file_in_sync_witness:
  "well_formed_store NoDir
   \<and> startup NoDir = Inr \<lparr> transactions = [], disk = File header \<rparr>
   \<and> list_all clean_request
       [Post \<lparr> uuid = Some ''u-1'', now = 1700000000000 \<rparr>
          (Obj [(''date'', Str ''2025-01-01''), (''category'', Str ''Food''),
                (''amount'', Str ''12.50''), (''notes'', Str ''lunch at work'')]),
        Get,
        Post \<lparr> uuid = None, now = 1700000000001 \<rparr>
          (Obj [(''date'', Str ''2025-01-02''), (''category'', Str ''Rent''),
                (''payee'', Str ''Landlord''), (''amount'', Num (Fin (- 900) 0))])]
   \<and> in_sync (run
       [Post \<lparr> uuid = Some ''u-1'', now = 1700000000000 \<rparr>
          (Obj [(''date'', Str ''2025-01-01''), (''category'', Str ''Food''),
                (''amount'', Str ''12.50''), (''notes'', Str ''lunch at work'')]),
        Get,
        Post \<lparr> uuid = None, now = 1700000000001 \<rparr>
          (Obj [(''date'', Str ''2025-01-02''), (''category'', Str ''Rent''),
                (''payee'', Str ''Landlord''), (''amount'', Num (Fin (- 900) 0))])]
       \<lparr> transactions = [], disk = File header \<rparr>)"
proof -
  let ?qs = "[Post \<lparr> uuid = Some ''u-1'', now = 1700000000000 \<rparr>
          (Obj [(''date'', Str ''2025-01-01''), (''category'', Str ''Food''),
                (''amount'', Str ''12.50''), (''notes'', Str ''lunch at work'')]),
        Get,
        Post \<lparr> uuid = None, now = 1700000000001 \<rparr>
          (Obj [(''date'', Str ''2025-01-02''), (''category'', Str ''Rent''),
                (''payee'', Str ''Landlord''), (''amount'', Num (Fin (- 900) 0))])]"
  have w: "well_formed_store NoDir"
    by (simp add: well_formed_store_def)
  have n: "string_to_number ''12.50'' = Fin 1250 (- 2)"
    by (simp add: number_defs)
  have g: "gen_id \<lparr> uuid = Some ''u-1'', now = 1700000000000 \<rparr> = ''u-1''"
    "gen_id \<lparr> uuid = None, now = 1700000000001 \<rparr> = ''1700000000001''"
    by (simp_all add: gen_id_def render_pos_def layout_def digits_of.simps digit_char_def)
  have c: "list_all clean_request ?qs"
    by (simp add: clean_post_def line_safe_def trimmed_def is_text_def body_prop_def
        get_prop_def or_else_def is_nan_def comma_def newline_def is_ws_def n g)
  from memory_and_file_in_sync [of NoDir "\<lparr> transactions = [], disk = File header \<rparr>" ?qs]
    w startup_fresh c
  have "in_sync (run ?qs \<lparr> transactions = [], disk = File header \<rparr>)"
    by blast
  then show ?thesis using w startup_fresh c by blast
qed

section \<open>The text of an amount\<close>

lemma digit_val_bounds:
  assumes "is_digit c"
  shows "digit_val c \<le> 9" "c \<noteq> CHR ''0'' \<Longrightarrow> 1 \<le> digit_val c"
  using assms by (auto simp: is_digit_def digit_val_def)

lemma nat_of_digits_upper: "list_all is_digit ds \<Longrightarrow> nat_of_digits ds < 10 ^ length ds"
proof (induction ds rule: rev_induct)
  case Nil
  then show ?case by simp
next
  case (snoc c ds)
  then have "nat_of_digits ds < 10 ^ length ds" "digit_val c \<le> 9"
    using digit_val_bounds(1) by simp_all
  then show ?case by (simp add: nat_of_digits_snoc)
qed

lemma nat_of_digits_lower:
  assumes "ds \<noteq> []" "list_all is_digit ds" "hd ds \<noteq> CHR ''0''"
  shows "10 ^ (length ds - 1) \<le> nat_of_digits ds"
proof -
  obtain c r where d: "ds = [c] @ r" using assms(1) by (cases ds) auto
  have "1 \<le> digit_val c" using assms(2,3) digit_val_bounds(2) unfolding d by simp
  then have "1 * 10 ^ length r \<le> digit_val c * 10 ^ length r"
    by (rule mult_le_mono1)
  then have 1: "(10::nat) ^ length r \<le> digit_val c * 10 ^ length r" by simp
  have 2: "nat_of_digits ds = digit_val c * 10 ^ length r + nat_of_digits r"
    unfolding d nat_of_digits_append by (simp add: nat_of_digits_def)
  have 3: "length ds - 1 = length r" unfolding d by simp
  show ?thesis unfolding 3 2 using 1 by (rule trans_le_add1)
qed

lemma render_pos_layout_hd:
  assumes "0 < m"
  obtains sig z where "sig \<noteq> []" "list_all is_digit sig" "hd sig \<noteq> CHR ''0''"
    "m = nat_of_digits sig * 10 ^ z"
    "render_pos (digits_of m) e = layout sig (int (length sig) + e + int z)"
proof -
  define z where "z = length (takeWhile (\<lambda>c. c = CHR ''0'') (rev (digits_of m)))"
  define sig where "sig = take (length (digits_of m) - z) (digits_of m)"
  have d: "digits_of m = sig @ replicate z (CHR ''0'')"
    unfolding sig_def z_def by (rule strip_zeros)
  have 1: "sig \<noteq> []"
    unfolding sig_def z_def using hd_digits_of [OF assms]
    by (intro strip_zeros_sig) simp_all
  have 2: "list_all is_digit sig"
    using digits_of_digits [of m] unfolding d by simp
  have "hd (digits_of m) = hd sig" unfolding d using 1 by simp
  then have 3: "hd sig \<noteq> CHR ''0''" using hd_digits_of [OF assms] by simp
  have "nat_of_digits (digits_of m) = nat_of_digits sig * 10 ^ z"
    unfolding d by (simp add: nat_of_digits_append)
  then have 4: "m = nat_of_digits sig * 10 ^ z" by simp
  have 5: "render_pos (digits_of m) e = layout sig (int (length sig) + e + int z)"
    by (simp add: render_pos_def Let_def sig_def z_def)
  show thesis using that [OF 1 2 3 4 5] .
qed

lemma unsigned_decimal_int:
  assumes "list_all is_digit ds" "ds \<noteq> []"
  shows "unsigned_decimal ds"
proof -
  have t: "takeWhile is_digit ds = ds" and d: "dropWhile is_digit ds = []"
    using takeWhile_digits [of ds "[]"] dropWhile_digits [of ds "[]"] assms(1) by simp_all
  show ?thesis
    unfolding unsigned_decimal_def t d Let_def using assms(2) by simp
qed

lemma unsigned_decimal_frac:
  assumes "list_all is_digit ip" "ip \<noteq> []" "list_all is_digit fp" "fp \<noteq> []"
  shows "unsigned_decimal (ip @ CHR ''.'' # fp)"
proof -
  have t: "takeWhile is_digit (ip @ CHR ''.'' # fp) = ip"
    and d: "dropWhile is_digit (ip @ CHR ''.'' # fp) = CHR ''.'' # fp"
    using takeWhile_digits [of ip "CHR ''.'' # fp"] dropWhile_digits [of ip "CHR ''.'' # fp"]
      assms(1) by simp_all
  show ?thesis
    unfolding unsigned_decimal_def t d Let_def using assms(2,3,4) by simp
qed

lemma plain_decimal_signs:
  assumes "unsigned_decimal u" "is_digit (hd u)"
  shows "plain_decimal u" "plain_decimal (CHR ''-'' # u)"
proof -
  have "hd u \<noteq> CHR ''-''" using assms(2) by (auto simp: is_digit_def)
  then show "plain_decimal u" using assms(1) by (simp add: plain_decimal_def)
  show "plain_decimal (CHR ''-'' # u)" using assms(1) by (simp add: plain_decimal_def)
qed

lemma plain_decimal_layout:
  assumes "sig \<noteq> []" "list_all is_digit sig" "- 6 < n" "n \<le> 21"
  shows "plain_decimal (layout sig n)" "plain_decimal (CHR ''-'' # layout sig n)"
proof -
  let ?k = "int (length sig)"
  have pos: "0 < ?k" using assms(1) by simp
  consider (A) "?k \<le> n" | (B) "n < ?k" "0 < n" | (C) "n \<le> 0"
    by linarith
  then have u: "unsigned_decimal (layout sig n)"
  proof cases
    case A
    then have l: "layout sig n = sig @ replicate (nat (n - ?k)) (CHR ''0'')"
      using assms(4) by (auto simp: layout_def Let_def)
    have "list_all is_digit (sig @ replicate (nat (n - ?k)) (CHR ''0''))"
      using assms(2) by (auto simp: list_all_iff)
    then show ?thesis unfolding l using assms(1) by (intro unsigned_decimal_int) simp_all
  next
    case B
    then have l: "layout sig n = take (nat n) sig @ CHR ''.'' # drop (nat n) sig"
      using assms(4) by (auto simp: layout_def Let_def)
    have "list_all is_digit (take (nat n) sig)" "list_all is_digit (drop (nat n) sig)"
      using assms(2) by (auto simp: list_all_iff dest: in_set_takeD in_set_dropD)
    moreover have "take (nat n) sig \<noteq> []" "drop (nat n) sig \<noteq> []"
      using B assms(1) by auto
    ultimately show ?thesis unfolding l by (intro unsigned_decimal_frac)
  next
    case C
    have "\<not> ?k \<le> n" using pos C by linarith
    then have l: "layout sig n = ''0'' @ CHR ''.'' # (replicate (nat (- n)) (CHR ''0'') @ sig)"
      using C assms(3) by (auto simp: layout_def Let_def)
    have "list_all is_digit (replicate (nat (- n)) (CHR ''0'') @ sig)"
      using assms(2) by (auto simp: list_all_iff)
    moreover have "replicate (nat (- n)) (CHR ''0'') @ sig \<noteq> []"
      using assms(1) by simp
    moreover have "list_all is_digit ''0''" "''0'' \<noteq> []" by simp_all
    ultimately show ?thesis unfolding l by (intro unsigned_decimal_frac)
  qed
  show "plain_decimal (layout sig n)" "plain_decimal (CHR ''-'' # layout sig n)"
    using plain_decimal_signs [OF u layout_ends(2) [OF assms(1,2)]] by simp_all
qed

lemma fixed_range_position:
  fixes s z k :: nat and e :: int
  assumes "10 ^ (k - 1) \<le> s" "s < 10 ^ k" "0 < k"
    "in_fixed_range (Fin (int (s * 10 ^ z)) e)"
  shows "- 6 < int k + e + int z" "int k + e + int z \<le> 21"
proof -
  have sp: "0 < s" using assms(1) by (metis less_le_trans zero_less_numeral zero_less_power)
  then have "int (s * 10 ^ z) \<noteq> 0" by simp
  then have r: "(10::int) ^ nat (- e - 6) \<le> \<bar>int (s * 10 ^ z)\<bar> * 10 ^ nat (e + 6)"
    "\<bar>int (s * 10 ^ z)\<bar> * 10 ^ nat e < (10::int) ^ (21 + nat (- e))"
    using assms(4) by auto
  have "int (10 ^ nat (- e - 6)) \<le> int (s * 10 ^ z * 10 ^ nat (e + 6))"
    using r(1) by simp
  then have L: "(10::nat) ^ nat (- e - 6) \<le> s * 10 ^ z * 10 ^ nat (e + 6)"
    by (simp only: of_nat_le_iff)
  have "int (s * 10 ^ z * 10 ^ nat e) < int (10 ^ (21 + nat (- e)))"
    using r(2) by simp
  then have U: "s * 10 ^ z * 10 ^ nat e < (10::nat) ^ (21 + nat (- e))"
    by (simp only: of_nat_less_iff)
  have "(10::nat) ^ (k - 1 + z + nat e) = 10 ^ (k - 1) * 10 ^ z * 10 ^ nat e"
    by (simp add: power_add)
  also have "\<dots> \<le> s * 10 ^ z * 10 ^ nat e"
    using assms(1) by simp
  finally have "(10::nat) ^ (k - 1 + z + nat e) < 10 ^ (21 + nat (- e))"
    using U by linarith
  then have "k - 1 + z + nat e < 21 + nat (- e)"
    by (rule power_less_imp_less_exp [rotated]) simp
  then show "int k + e + int z \<le> 21"
    using assms(3) by linarith
  have "s * 10 ^ z * 10 ^ nat (e + 6) < (10::nat) ^ k * 10 ^ z * 10 ^ nat (e + 6)"
    using assms(2) by simp
  also have "\<dots> = 10 ^ (k + z + nat (e + 6))"
    by (simp add: power_add)
  finally have "(10::nat) ^ nat (- e - 6) < 10 ^ (k + z + nat (e + 6))"
    using L by linarith
  then have "nat (- e - 6) < k + z + nat (e + 6)"
    by (rule power_less_imp_less_exp [rotated]) simp
  then show "- 6 < int k + e + int z"
    by linarith
qed

lemma num_to_string_plain:
  assumes "in_fixed_range x"
  shows "plain_decimal (num_to_string x)"
proof (cases x)
  case (Fin m e)
  show ?thesis
  proof (cases "m = 0")
    case True
    then show ?thesis using Fin
      by (simp add: plain_decimal_def unsigned_decimal_def is_digit_def)
  next
    case False
    then have p: "0 < nat \<bar>m\<bar>" by simp
    obtain sig z where s: "sig \<noteq> []" "list_all is_digit sig" "hd sig \<noteq> CHR ''0''"
      "nat \<bar>m\<bar> = nat_of_digits sig * 10 ^ z"
      "render_pos (digits_of (nat \<bar>m\<bar>)) e = layout sig (int (length sig) + e + int z)"
      using render_pos_layout_hd [OF p] by metis
    have "in_fixed_range (Fin (int (nat \<bar>m\<bar>)) e)"
      using assms Fin by simp
    then have r: "in_fixed_range (Fin (int (nat_of_digits sig * 10 ^ z)) e)"
      unfolding s(4) .
    have k: "0 < length sig" using s(1) by simp
    note n = fixed_range_position [OF nat_of_digits_lower [OF s(1,2,3)]
        nat_of_digits_upper [OF s(2)] k r]
    note pl = plain_decimal_layout [OF s(1,2) n]
    show ?thesis
      using pl Fin False unfolding s(5) [symmetric] by (cases "m < 0") simp_all
  qed
qed (use assms in simp_all)

lemma safe_parts:
  "safe v = Inr f \<Longrightarrow> \<exists>t. to_string (nullish_or v (Str [])) = Inr t \<and> f = trim (replace_commas t)"
  by (auto simp: safe_def bind_def split: sum.splits)

lemma amount_text_parts:
  "amount_text v = Inr f \<Longrightarrow>
     \<exists>x. to_number v = Inr x \<and> f = num_to_string (if falsy_num x then Fin 0 0 else x)"
  by (auto simp: amount_text_def bind_def split: sum.splits)

lemma amount_text_invalid:
  "to_number v = Inr NaN \<Longrightarrow> amount_text v = Inr ''0''"
  by (simp add: amount_text_def bind_def)

lemma toCsvLine_iff:
  "toCsvLine r = Inr l \<longleftrightarrow>
     (\<exists>f0 f1 f2 f3 f4 f5.
        safe (rec_id r) = Inr f0 \<and> safe (date r) = Inr f1 \<and> safe (category r) = Inr f2
        \<and> safe (payee r) = Inr f3 \<and> amount_text (amount r) = Inr f4
        \<and> safe (rec_notes r) = Inr f5
        \<and> l = join comma [f0, f1, f2, f3, f4, f5] @ [newline])"
proof
  assume "toCsvLine r = Inr l"
  then show "\<exists>f0 f1 f2 f3 f4 f5.
        safe (rec_id r) = Inr f0 \<and> safe (date r) = Inr f1 \<and> safe (category r) = Inr f2
        \<and> safe (payee r) = Inr f3 \<and> amount_text (amount r) = Inr f4
        \<and> safe (rec_notes r) = Inr f5
        \<and> l = join comma [f0, f1, f2, f3, f4, f5] @ [newline]"
    using toCsvLine_fields by metis
next
  assume "\<exists>f0 f1 f2 f3 f4 f5.
        safe (rec_id r) = Inr f0 \<and> safe (date r) = Inr f1 \<and> safe (category r) = Inr f2
        \<and> safe (payee r) = Inr f3 \<and> amount_text (amount r) = Inr f4
        \<and> safe (rec_notes r) = Inr f5
        \<and> l = join comma [f0, f1, f2, f3, f4, f5] @ [newline]"
  then show "toCsvLine r = Inr l"
    by (auto simp: toCsvLine_def bind_def)
qed

text \<open>
  Claim C7, as stated, fails in its clause on the amount: the text of an amount is not
  always a plain decimal string. The amount \<open>10 ^ 21\<close> is written with an exponent, and
  the amount \<open>''Infinity''\<close> as that word.
\<close>

theorem amount_text_counterexample:
  "toCsvLine \<lparr> rec_id = Str ''1'', date = Str ''2025-01-01'', category = Str ''Food'',
       payee = Str ''Shop'', amount = Num (Fin 1 21), rec_notes = Str ''ok'' \<rparr>
     = Inr (''1,2025-01-01,Food,Shop,1e+21,ok'' @ [newline])
   \<and> amount_text (Num (Fin 1 21)) = Inr ''1e+21''
   \<and> \<not> plain_decimal ''1e+21''
   \<and> amount_text (Str ''Infinity'') = Inr ''Infinity''
   \<and> \<not> plain_decimal ''Infinity''"
proof -
  have 1: "toCsvLine \<lparr> rec_id = Str ''1'', date = Str ''2025-01-01'', category = Str ''Food'',
       payee = Str ''Shop'', amount = Num (Fin 1 21), rec_notes = Str ''ok'' \<rparr>
     = Inr (''1,2025-01-01,Food,Shop,1e+21,ok'' @ [newline])"
    by (simp add: codec_defs)
  have 2: "amount_text (Num (Fin 1 21)) = Inr ''1e+21''"
    by (simp add: codec_defs)
  have 3: "\<not> plain_decimal ''1e+21''"
    by (simp add: plain_decimal_def unsigned_decimal_def is_digit_def)
  have 4: "amount_text (Str ''Infinity'') = Inr ''Infinity''"
    by (simp add: amount_text_def bind_def number_defs)
  have 5: "\<not> plain_decimal ''Infinity''"
    by (simp add: plain_decimal_def unsigned_decimal_def is_digit_def)
  show ?thesis using 1 2 3 4 5 by blast
qed

text \<open>
  Claim C7, amended. A record is encoded exactly when each of its fields converts, and
  the line is then the six field texts in the order id, date, category, payee, amount,
  notes, joined by commas and ended by a newline. The text of a field other than the
  amount is the string of the field (the empty string for \<open>null\<close> and \<open>undefined\<close>) with
  every comma replaced by one space and the white space around it trimmed. The text of
  the amount is that of \<open>Number(amount)\<close>, with 0 in place of not-a-number, so a missing
  or invalid amount is written as \<open>0\<close>; it is a plain decimal string when the number
  is zero or its magnitude is at least \<open>10 ^ -6\<close> and less than \<open>10 ^ 21\<close>.
\<close>

theorem toCsvLine_layout:
  "(toCsvLine r = Inr l \<longleftrightarrow>
      (\<exists>f0 f1 f2 f3 f4 f5.
         safe (rec_id r) = Inr f0 \<and> safe (date r) = Inr f1 \<and> safe (category r) = Inr f2
         \<and> safe (payee r) = Inr f3 \<and> amount_text (amount r) = Inr f4
         \<and> safe (rec_notes r) = Inr f5
         \<and> l = join comma [f0, f1, f2, f3, f4, f5] @ [newline]))
   \<and> (safe v = Inr f \<longrightarrow>
        (\<exists>t. to_string (nullish_or v (Str [])) = Inr t \<and> f = trim (replace_commas t)))
   \<and> length (replace_commas t) = length t
   \<and> (i < length t \<longrightarrow> replace_commas t ! i = (if t ! i = comma then space else t ! i))
   \<and> (\<exists>a b. t = a @ trim t @ b \<and> list_all is_ws a \<and> list_all is_ws b)
   \<and> trimmed (trim t)
   \<and> (amount_text v = Inr f \<longrightarrow>
        (\<exists>x. to_number v = Inr x \<and> f = num_to_string (if falsy_num x then Fin 0 0 else x)))
   \<and> (to_number v = Inr NaN \<longrightarrow> amount_text v = Inr ''0'')
   \<and> amount_text Undefined = Inr ''0''
   \<and> (in_fixed_range x \<longrightarrow> plain_decimal (num_to_string x))"
proof (intro conjI impI)
  show "toCsvLine r = Inr l \<longleftrightarrow>
      (\<exists>f0 f1 f2 f3 f4 f5.
         safe (rec_id r) = Inr f0 \<and> safe (date r) = Inr f1 \<and> safe (category r) = Inr f2
         \<and> safe (payee r) = Inr f3 \<and> amount_text (amount r) = Inr f4
         \<and> safe (rec_notes r) = Inr f5
         \<and> l = join comma [f0, f1, f2, f3, f4, f5] @ [newline])"
    by (rule toCsvLine_iff)
  show "length (replace_commas t) = length t"
    by (rule replace_commas_nth(1))
  show "\<exists>a b. t = a @ trim t @ b \<and> list_all is_ws a \<and> list_all is_ws b"
    by (rule trim_decompose)
  show "trimmed (trim t)"
    by (rule trim_trimmed)
  show "amount_text Undefined = Inr ''0''"
    by (simp add: amount_text_invalid)
next
  assume "safe v = Inr f"
  then show "\<exists>t. to_string (nullish_or v (Str [])) = Inr t \<and> f = trim (replace_commas t)"
    by (rule safe_parts)
next
  assume "i < length t"
  then show "replace_commas t ! i = (if t ! i = comma then space else t ! i)"
    by (rule replace_commas_nth(2))
next
  assume "amount_text v = Inr f"
  then show "\<exists>x. to_number v = Inr x \<and> f = num_to_string (if falsy_num x then Fin 0 0 else x)"
    by (rule amount_text_parts)
next
  assume "to_number v = Inr NaN"
  then show "amount_text v = Inr ''0''"
    by (rule amount_text_invalid)
next
  assume "in_fixed_range x"
  then show "plain_decimal (num_to_string x)"
    by (rule num_to_string_plain)
qed

theorem toCsvLine_layout_witness:
  "toCsvLine \<lparr> rec_id = Str ''1'', date = Str ''2025-01-01'', category = Str ''Food'',
       payee = Str ''Shop'', amount = Num (Fin (- 105) (- 1)), rec_notes = Str ''a, b '' \<rparr>
     = Inr (''1,2025-01-01,Food,Shop,-10.5,a  b'' @ [newline])
   \<and> in_fixed_range (Fin (- 105) (- 1))
   \<and> plain_decimal (num_to_string (Fin (- 105) (- 1)))
   \<and> num_to_string (Fin (- 105) (- 1)) = ''-10.5''
   \<and> amount_text (Str ''abc'') = Inr ''0''"
proof -
  let ?r = "\<lparr> rec_id = Str ''1'', date = Str ''2025-01-01'', category = Str ''Food'',
       payee = Str ''Shop'', amount = Num (Fin (- 105) (- 1)), rec_notes = Str ''a, b '' \<rparr>"
  note t = toCsvLine_layout [of ?r "''1,2025-01-01,Food,Shop,-10.5,a  b'' @ [newline]"
      "Str ''abc''" "''0''" "[]" 0 "Fin (- 105) (- 1)"]
  have s: "safe (rec_id ?r) = Inr ''1''" "safe (date ?r) = Inr ''2025-01-01''"
    "safe (category ?r) = Inr ''Food''" "safe (payee ?r) = Inr ''Shop''"
    "amount_text (amount ?r) = Inr ''-10.5''" "safe (rec_notes ?r) = Inr ''a  b''"
    by (simp_all add: codec_defs)
  have j: "''1,2025-01-01,Food,Shop,-10.5,a  b'' @ [newline]
      = join comma [''1'', ''2025-01-01'', ''Food'', ''Shop'', ''-10.5'', ''a  b''] @ [newline]"
    by (simp add: comma_def)
  have 1: "toCsvLine ?r = Inr (''1,2025-01-01,Food,Shop,-10.5,a  b'' @ [newline])"
    using t s j by blast
  have f: "in_fixed_range (Fin (- 105) (- 1))"
    by simp
  have 2: "plain_decimal (num_to_string (Fin (- 105) (- 1)))"
    using t f by blast
  have 3: "num_to_string (Fin (- 105) (- 1)) = ''-10.5''"
    by (simp add: codec_defs)
  have n: "to_number (Str ''abc'') = Inr NaN"
    by (simp add: number_defs)
  have 4: "amount_text (Str ''abc'') = Inr ''0''"
    using t n by blast
  show ?thesis using 1 f 2 3 4 by blast
qed

section \<open>The answer to a valid create request\<close>

text \<open>The text of a clock value is its decimal digits.\<close>

lemma digits_of_length:
  assumes "0 < n" "n < 10 ^ k"
  shows "length (digits_of n) \<le> k"
proof -
  have "10 ^ (length (digits_of n) - 1) \<le> nat_of_digits (digits_of n)"
    using hd_digits_of [OF assms(1)] digits_of_digits [of n]
    by (intro nat_of_digits_lower) simp_all
  then have "10 ^ (length (digits_of n) - 1) \<le> n" by (simp only: nat_of_digits_of)
  from this assms(2) have "(10::nat) ^ (length (digits_of n) - 1) < 10 ^ k"
    by (rule le_less_trans)
  then have "length (digits_of n) - 1 < k"
    by (rule power_less_imp_less_exp [rotated]) simp
  then show ?thesis by simp
qed

lemma render_pos_integer:
  assumes "0 < n" "n < 10 ^ 21"
  shows "render_pos (digits_of n) 0 = digits_of n"
proof -
  define z where "z = length (takeWhile (\<lambda>c. c = CHR ''0'') (rev (digits_of n)))"
  define sig where "sig = take (length (digits_of n) - z) (digits_of n)"
  have d: "digits_of n = sig @ replicate z (CHR ''0'')"
    unfolding sig_def z_def by (rule strip_zeros)
  have l: "length sig + z \<le> 21"
    using digits_of_length [OF assms] unfolding d by simp
  have "render_pos (digits_of n) 0 = layout sig (int (length sig) + int z)"
    by (simp add: render_pos_def Let_def sig_def z_def)
  also have "\<dots> = sig @ replicate z (CHR ''0'')"
    using l by (simp add: layout_def Let_def)
  finally show ?thesis using d by simp
qed

lemma clock_text:
  assumes "0 < t" "t < 10 ^ 21"
  shows "num_to_string (Fin t 0) = digits_of (nat t)"
proof -
  have "nat t < 10 ^ 21" using assms by (simp add: nat_less_iff)
  then show ?thesis using assms(1) render_pos_integer [of "nat t"] by simp
qed

text \<open>
  Claim C5. In a state the process can reach, a request with a truthy \<open>date\<close> and
  \<open>category\<close>, an amount that is defined and converts to a number other than
  not-a-number, and text fields that \<open>String\<close> converts (as every string, number,
  boolean and \<open>null\<close> is) is answered with status 200 and the new record. Its identifier
  is the random UUID of the runtime when there is one, and otherwise the text of the
  clock, which is the decimal digits of its milliseconds; the identifier is not compared
  with those in the array. \<open>payee\<close> and \<open>notes\<close> are the empty string when absent
  (falsy), and the amount is the converted number, which the JSON text of the answer
  shows as \<open>null\<close> when it is infinite. The record is the new last element of the array
  and its line is the new end of the file.
\<close>

theorem create_accepts_valid_request:
  assumes "reachable s"
    and "truthy (body_prop body ''date'')" and "truthy (body_prop body ''category'')"
    and "body_prop body ''amount'' \<noteq> Undefined"
    and "to_number (body_prop body ''amount'') = Inr x" and "x \<noteq> NaN"
    and "printable (body_prop body ''date'')" and "printable (body_prop body ''category'')"
    and "printable (body_prop body ''payee'')" and "printable (body_prop body ''notes'')"
  shows "\<exists>r c l. disk s = File c \<and> toCsvLine r = Inr l
           \<and> create ev body s =
               (Created r, \<lparr> transactions = transactions s @ [r], disk = File (c @ l) \<rparr>)
           \<and> rec_id r = Str (gen_id ev)
           \<and> (uuid ev = Some u \<and> u \<noteq> [] \<longrightarrow> rec_id r = Str u)
           \<and> (uuid ev = None \<or> uuid ev = Some [] \<longrightarrow>
                rec_id r = Str (num_to_string (Fin (now ev) 0)))
           \<and> (0 < now ev \<and> now ev < 10 ^ 21 \<longrightarrow>
                num_to_string (Fin (now ev) 0) = digits_of (nat (now ev)))
           \<and> date r = body_prop body ''date''
           \<and> category r = body_prop body ''category''
           \<and> payee r = (if truthy (body_prop body ''payee'') then body_prop body ''payee''
                         else Str [])
           \<and> amount r = Num x
           \<and> rec_notes r = (if truthy (body_prop body ''notes'') then body_prop body ''notes''
                         else Str [])
           \<and> json_amount r = (if x = PosInf \<or> x = NegInf then Null else Num x)"
proof -
  obtain c where c: "disk s = File c"
    using reachable_file assms(1) by blast
  obtain l where l: "toCsvLine (new_record ev body x) = Inr l"
    using new_record_printable assms(7-10) by blast
  have "create ev body s =
          (Created (new_record ev body x),
           \<lparr> transactions = transactions s @ [new_record ev body x], disk = File (c @ l) \<rparr>)"
    using create_accepts assms(2-6) l c by blast
  moreover have "uuid ev = Some u \<and> u \<noteq> [] \<longrightarrow> gen_id ev = u"
    by (simp add: gen_id_def)
  moreover have "uuid ev = None \<or> uuid ev = Some [] \<longrightarrow>
      gen_id ev = num_to_string (Fin (now ev) 0)"
    by (auto simp: gen_id_def)
  moreover have "0 < now ev \<and> now ev < 10 ^ 21 \<longrightarrow>
      num_to_string (Fin (now ev) 0) = digits_of (nat (now ev))"
    using clock_text by blast
  moreover have "json_amount (new_record ev body x)
      = (if x = PosInf \<or> x = NegInf then Null else Num x)"
    using assms(6) by (simp add: json_amount_def new_record_def)
  ultimately show ?thesis
    using c l by (intro exI [of _ "new_record ev body x"] exI [of _ c] exI [of _ l])
      (simp add: new_record_def or_else_def)
qed

theorem create_accepts_valid_request_witness:
  "create \<lparr> uuid = Some ''u-1'', now = 1700000000000 \<rparr>
       (Obj [(''date'', Str ''2025-01-01''), (''category'', Str ''Food''),
             (''amount'', Num (Fin 0 0))])
       \<lparr> transactions = [], disk = File header \<rparr>
     = (Created \<lparr> rec_id = Str ''u-1'', date = Str ''2025-01-01'', category = Str ''Food'',
                  payee = Str [], amount = Num (Fin 0 0), rec_notes = Str [] \<rparr>,
        \<lparr> transactions =
            [\<lparr> rec_id = Str ''u-1'', date = Str ''2025-01-01'', category = Str ''Food'',
               payee = Str [], amount = Num (Fin 0 0), rec_notes = Str [] \<rparr>],
          disk = File (header @ ''u-1,2025-01-01,Food,,0,'' @ [newline]) \<rparr>)
   \<and> json_amount \<lparr> rec_id = Str ''u-1'', date = Str ''2025-01-01'', category = Str ''Food'',
                  payee = Str [], amount = Num (Fin 0 0), rec_notes = Str [] \<rparr> = Num (Fin 0 0)
   \<and> create \<lparr> uuid = None, now = 1700000000000 \<rparr>
       (Obj [(''date'', Str ''2025-01-02''), (''category'', Str ''Food''),
             (''payee'', Str ''Cafe''), (''amount'', Str ''12.50''), (''notes'', Str ''tip'')])
       \<lparr> transactions = [], disk = File header \<rparr>
     = (Created \<lparr> rec_id = Str ''1700000000000'', date = Str ''2025-01-02'',
                  category = Str ''Food'', payee = Str ''Cafe'',
                  amount = Num (Fin 1250 (- 2)), rec_notes = Str ''tip'' \<rparr>,
        \<lparr> transactions =
            [\<lparr> rec_id = Str ''1700000000000'', date = Str ''2025-01-02'',
               category = Str ''Food'', payee = Str ''Cafe'',
               amount = Num (Fin 1250 (- 2)), rec_notes = Str ''tip'' \<rparr>],
          disk = File (header @ ''1700000000000,2025-01-02,Food,Cafe,12.5,tip'' @ [newline]) \<rparr>)"
proof -
  let ?s = "\<lparr> transactions = [], disk = File header \<rparr>"
  let ?ev = "\<lparr> uuid = Some ''u-1'', now = 1700000000000 \<rparr>"
  let ?body = "Obj [(''date'', Str ''2025-01-01''), (''category'', Str ''Food''),
             (''amount'', Num (Fin 0 0))]"
  have p: "body_prop ?body ''date'' = Str ''2025-01-01''"
      "body_prop ?body ''category'' = Str ''Food''"
      "body_prop ?body ''amount'' = Num (Fin 0 0)"
      "body_prop ?body ''payee'' = Undefined"
      "body_prop ?body ''notes'' = Undefined"
    by (simp_all add: body_prop_def get_prop_def or_else_def)
  have "\<exists>r c l. disk ?s = File c \<and> toCsvLine r = Inr l
           \<and> create ?ev ?body ?s =
               (Created r, \<lparr> transactions = transactions ?s @ [r], disk = File (c @ l) \<rparr>)
           \<and> rec_id r = Str (gen_id ?ev)
           \<and> (uuid ?ev = Some ''u-1'' \<and> ''u-1'' \<noteq> [] \<longrightarrow> rec_id r = Str ''u-1'')
           \<and> (uuid ?ev = None \<or> uuid ?ev = Some [] \<longrightarrow>
                rec_id r = Str (num_to_string (Fin (now ?ev) 0)))
           \<and> (0 < now ?ev \<and> now ?ev < 10 ^ 21 \<longrightarrow>
                num_to_string (Fin (now ?ev) 0) = digits_of (nat (now ?ev)))
           \<and> date r = body_prop ?body ''date''
           \<and> category r = body_prop ?body ''category''
           \<and> payee r = (if truthy (body_prop ?body ''payee'') then body_prop ?body ''payee''
                         else Str [])
           \<and> amount r = Num (Fin 0 0)
           \<and> rec_notes r = (if truthy (body_prop ?body ''notes'') then body_prop ?body ''notes''
                         else Str [])
           \<and> json_amount r = (if Fin 0 0 = PosInf \<or> Fin 0 0 = NegInf then Null
                              else Num (Fin 0 0))"
    by (rule create_accepts_valid_request [OF reachable_fresh])
      (simp_all add: p printable_def)
  then obtain r c l where r: "disk ?s = File c" "toCsvLine r = Inr l"
      "create ?ev ?body ?s =
         (Created r, \<lparr> transactions = transactions ?s @ [r], disk = File (c @ l) \<rparr>)"
      "rec_id r = Str ''u-1''" "date r = Str ''2025-01-01''" "category r = Str ''Food''"
      "payee r = Str []" "amount r = Num (Fin 0 0)" "rec_notes r = Str []"
      "json_amount r = Num (Fin 0 0)"
    unfolding p by auto
  have req: "r = \<lparr> rec_id = Str ''u-1'', date = Str ''2025-01-01'', category = Str ''Food'',
                  payee = Str [], amount = Num (Fin 0 0), rec_notes = Str [] \<rparr>"
    using r(4-9) by (cases r) simp
  have "l = ''u-1,2025-01-01,Food,,0,'' @ [newline]"
    using r(2) unfolding req
    by (simp add: toCsvLine_def safe_def amount_text_def bind_def nullish_or_def trim_def
        replace_commas_def is_ws_def comma_def)
  then have 1: "create ?ev ?body ?s
     = (Created \<lparr> rec_id = Str ''u-1'', date = Str ''2025-01-01'', category = Str ''Food'',
                  payee = Str [], amount = Num (Fin 0 0), rec_notes = Str [] \<rparr>,
        \<lparr> transactions =
            [\<lparr> rec_id = Str ''u-1'', date = Str ''2025-01-01'', category = Str ''Food'',
               payee = Str [], amount = Num (Fin 0 0), rec_notes = Str [] \<rparr>],
          disk = File (header @ ''u-1,2025-01-01,Food,,0,'' @ [newline]) \<rparr>)"
    using r(1,3) req by simp
  have 2: "json_amount \<lparr> rec_id = Str ''u-1'', date = Str ''2025-01-01'',
      category = Str ''Food'', payee = Str [], amount = Num (Fin 0 0), rec_notes = Str [] \<rparr>
      = Num (Fin 0 0)"
    using r(10) unfolding req .
  let ?ev' = "\<lparr> uuid = None, now = 1700000000000 \<rparr>"
  let ?body' = "Obj [(''date'', Str ''2025-01-02''), (''category'', Str ''Food''),
             (''payee'', Str ''Cafe''), (''amount'', Str ''12.50''), (''notes'', Str ''tip'')]"
  have q: "body_prop ?body' ''date'' = Str ''2025-01-02''"
      "body_prop ?body' ''category'' = Str ''Food''"
      "body_prop ?body' ''amount'' = Str ''12.50''"
      "body_prop ?body' ''payee'' = Str ''Cafe''"
      "body_prop ?body' ''notes'' = Str ''tip''"
    by (simp_all add: body_prop_def get_prop_def or_else_def)
  have n: "string_to_number ''12.50'' = Fin 1250 (- 2)"
    by (simp add: number_defs)
  have "\<exists>r c l. disk ?s = File c \<and> toCsvLine r = Inr l
           \<and> create ?ev' ?body' ?s =
               (Created r, \<lparr> transactions = transactions ?s @ [r], disk = File (c @ l) \<rparr>)
           \<and> rec_id r = Str (gen_id ?ev')
           \<and> (uuid ?ev' = Some ''u-1'' \<and> ''u-1'' \<noteq> [] \<longrightarrow> rec_id r = Str ''u-1'')
           \<and> (uuid ?ev' = None \<or> uuid ?ev' = Some [] \<longrightarrow>
                rec_id r = Str (num_to_string (Fin (now ?ev') 0)))
           \<and> (0 < now ?ev' \<and> now ?ev' < 10 ^ 21 \<longrightarrow>
                num_to_string (Fin (now ?ev') 0) = digits_of (nat (now ?ev')))
           \<and> date r = body_prop ?body' ''date''
           \<and> category r = body_prop ?body' ''category''
           \<and> payee r = (if truthy (body_prop ?body' ''payee'') then body_prop ?body' ''payee''
                         else Str [])
           \<and> amount r = Num (Fin 1250 (- 2))
           \<and> rec_notes r = (if truthy (body_prop ?body' ''notes'') then body_prop ?body' ''notes''
                         else Str [])
           \<and> json_amount r = (if Fin 1250 (- 2) = PosInf \<or> Fin 1250 (- 2) = NegInf then Null
                              else Num (Fin 1250 (- 2)))"
    by (rule create_accepts_valid_request [OF reachable_fresh])
      (simp_all add: q n printable_def)
  then obtain r' c' l' where r': "disk ?s = File c'" "toCsvLine r' = Inr l'"
      "create ?ev' ?body' ?s =
         (Created r', \<lparr> transactions = transactions ?s @ [r'], disk = File (c' @ l') \<rparr>)"
      "rec_id r' = Str (digits_of 1700000000000)"
      "date r' = Str ''2025-01-02''" "category r' = Str ''Food''"
      "payee r' = Str ''Cafe''" "amount r' = Num (Fin 1250 (- 2))" "rec_notes r' = Str ''tip''"
    unfolding q by auto
  have dg: "digits_of 1700000000000 = ''1700000000000''"
    by (simp add: digits_of.simps digit_char_def)
  have req': "r' = \<lparr> rec_id = Str ''1700000000000'', date = Str ''2025-01-02'',
                  category = Str ''Food'', payee = Str ''Cafe'',
                  amount = Num (Fin 1250 (- 2)), rec_notes = Str ''tip'' \<rparr>"
    using r'(4-9) unfolding dg by (cases r') simp
  have "l' = ''1700000000000,2025-01-02,Food,Cafe,12.5,tip'' @ [newline]"
    using r'(2) unfolding req'
    by (simp add: codec_defs)
  then have 3: "create ?ev' ?body' ?s
     = (Created \<lparr> rec_id = Str ''1700000000000'', date = Str ''2025-01-02'',
                  category = Str ''Food'', payee = Str ''Cafe'',
                  amount = Num (Fin 1250 (- 2)), rec_notes = Str ''tip'' \<rparr>,
        \<lparr> transactions =
            [\<lparr> rec_id = Str ''1700000000000'', date = Str ''2025-01-02'',
               category = Str ''Food'', payee = Str ''Cafe'',
               amount = Num (Fin 1250 (- 2)), rec_notes = Str ''tip'' \<rparr>],
          disk = File (header @ ''1700000000000,2025-01-02,Food,Cafe,12.5,tip'' @ [newline]) \<rparr>)"
    using r'(1,3) req' by simp
  show ?thesis using 1 2 3 by blast
qed

text \<open>
  Without the condition on the text fields the request need not be answered with the
  record: notes that are an object with an own property \<open>toString\<close> pass the validation,
  the record is pushed to the array, and the conversion of the notes throws before the
  file is written. The identifier need not be new either: where the runtime has no
  random UUID, two requests in one millisecond get the same identifier. And the amount
  \<open>Infinity\<close> is accepted and stored, while the JSON text of the answer carries \<open>null\<close>.
\<close>

theorem create_valid_request_counterexample:
  "reachable \<lparr> transactions = [], disk = File header \<rparr>
   \<and> truthy (body_prop (Obj [(''date'', Str ''2025-01-01''), (''category'', Str ''Food''),
         (''amount'', Num (Fin 1 0)), (''notes'', Obj [(''toString'', Null)])]) ''date'')
   \<and> truthy (body_prop (Obj [(''date'', Str ''2025-01-01''), (''category'', Str ''Food''),
         (''amount'', Num (Fin 1 0)), (''notes'', Obj [(''toString'', Null)])]) ''category'')
   \<and> to_number (body_prop (Obj [(''date'', Str ''2025-01-01''), (''category'', Str ''Food''),
         (''amount'', Num (Fin 1 0)), (''notes'', Obj [(''toString'', Null)])]) ''amount'')
       = Inr (Fin 1 0)
   \<and> create \<lparr> uuid = Some ''u-1'', now = 1700000000000 \<rparr>
       (Obj [(''date'', Str ''2025-01-01''), (''category'', Str ''Food''),
             (''amount'', Num (Fin 1 0)), (''notes'', Obj [(''toString'', Null)])])
       \<lparr> transactions = [], disk = File header \<rparr>
     = (Fault TypeError,
        \<lparr> transactions =
            [\<lparr> rec_id = Str ''u-1'', date = Str ''2025-01-01'', category = Str ''Food'',
               payee = Str [], amount = Num (Fin 1 0),
               rec_notes = Obj [(''toString'', Null)] \<rparr>],
          disk = File header \<rparr>)
   \<and> create \<lparr> uuid = None, now = 1700000000123 \<rparr>
       (Obj [(''date'', Str ''2025-01-01''), (''category'', Str ''Food''),
             (''amount'', Num (Fin 1 0))])
       \<lparr> transactions = [], disk = File header \<rparr>
     = (Created \<lparr> rec_id = Str ''1700000000123'', date = Str ''2025-01-01'',
                  category = Str ''Food'', payee = Str [], amount = Num (Fin 1 0),
                  rec_notes = Str [] \<rparr>,
        \<lparr> transactions =
            [\<lparr> rec_id = Str ''1700000000123'', date = Str ''2025-01-01'',
               category = Str ''Food'', payee = Str [], amount = Num (Fin 1 0),
               rec_notes = Str [] \<rparr>],
          disk = File (header @ ''1700000000123,2025-01-01,Food,,1,'' @ [newline]) \<rparr>)
   \<and> create \<lparr> uuid = None, now = 1700000000123 \<rparr>
       (Obj [(''date'', Str ''2025-01-02''), (''category'', Str ''Rent''),
             (''amount'', Num (Fin 2 0))])
       \<lparr> transactions =
            [\<lparr> rec_id = Str ''1700000000123'', date = Str ''2025-01-01'',
               category = Str ''Food'', payee = Str [], amount = Num (Fin 1 0),
               rec_notes = Str [] \<rparr>],
          disk = File (header @ ''1700000000123,2025-01-01,Food,,1,'' @ [newline]) \<rparr>
     = (Created \<lparr> rec_id = Str ''1700000000123'', date = Str ''2025-01-02'',
                  category = Str ''Rent'', payee = Str [], amount = Num (Fin 2 0),
                  rec_notes = Str [] \<rparr>,
        \<lparr> transactions =
            [\<lparr> rec_id = Str ''1700000000123'', date = Str ''2025-01-01'',
               category = Str ''Food'', payee = Str [], amount = Num (Fin 1 0),
               rec_notes = Str [] \<rparr>,
             \<lparr> rec_id = Str ''1700000000123'', date = Str ''2025-01-02'',
               category = Str ''Rent'', payee = Str [], amount = Num (Fin 2 0),
               rec_notes = Str [] \<rparr>],
          disk = File ((header @ ''1700000000123,2025-01-01,Food,,1,'' @ [newline])
                       @ ''1700000000123,2025-01-02,Rent,,2,'' @ [newline]) \<rparr>)
   \<and> create \<lparr> uuid = Some ''u-2'', now = 1700000000000 \<rparr>
       (Obj [(''date'', Str ''2025-01-01''), (''category'', Str ''Food''),
             (''amount'', Str ''Infinity'')])
       \<lparr> transactions = [], disk = File header \<rparr>
     = (Created \<lparr> rec_id = Str ''u-2'', date = Str ''2025-01-01'', category = Str ''Food'',
                  payee = Str [], amount = Num PosInf, rec_notes = Str [] \<rparr>,
        \<lparr> transactions =
            [\<lparr> rec_id = Str ''u-2'', date = Str ''2025-01-01'', category = Str ''Food'',
               payee = Str [], amount = Num PosInf, rec_notes = Str [] \<rparr>],
          disk = File (header @ ''u-2,2025-01-01,Food,,Infinity,'' @ [newline]) \<rparr>)
   \<and> json_amount \<lparr> rec_id = Str ''u-2'', date = Str ''2025-01-01'', category = Str ''Food'',
                  payee = Str [], amount = Num PosInf, rec_notes = Str [] \<rparr> = Null"
proof -
  have n: "string_to_number ''Infinity'' = PosInf"
    by (simp add: number_defs)
  show ?thesis
    by (intro conjI reachable_fresh)
      (simp_all add: create_defs n json_amount_def)
qed

end
